theory Spec2Isabelle
  imports Main "HOL-Library.Sublist"
begin

section \<open>The two patterns of the note extractor\<close>

text \<open>
  \<^verbatim>\<open>src/app/page.tsx\<close>, lines 211-212, scans the accumulated text with two regular
  expressions of one shape: a literal (a quoted field name, a colon, an opening quote)
  followed by one capture group, the greedy run \<^verbatim>\<open>[^\"]*\<close> of characters other than the
  double quote. Inside a character class \<^verbatim>\<open>\"\<close> is the double quote itself, so the
  backslash is an ordinary member of the run.

  \<^verbatim>\<open>String.prototype.match\<close> without the \<^verbatim>\<open>g\<close> flag tries the start positions from left
  to right and returns the first position where the pattern matches, or \<^verbatim>\<open>null\<close>. The
  capture group can match the empty run, so the pattern matches at a position exactly
  when the literal is there, and the group then holds the longest run without a double
  quote. A string is a list of characters; \<open>None\<close> is \<^verbatim>\<open>null\<close> and \<open>Some v\<close> is a match
  whose group 1 is \<open>v\<close>.
\<close>

definition dq :: char where
  "dq = CHR 0x22"

definition bslash :: char where
  "bslash = CHR 0x5C"

definition developer_re :: string where
  "developer_re = [dq] @ ''developer_notes'' @ [dq] @ '':'' @ [dq]"

definition marketing_re :: string where
  "marketing_re = [dq] @ ''marketing_notes'' @ [dq] @ '':'' @ [dq]"

fun re_match :: "string \<Rightarrow> string \<Rightarrow> string option" where
  "re_match lit [] = (if lit = [] then Some [] else None)"
| "re_match lit (c # cs) =
     (if prefix lit (c # cs)
      then Some (takeWhile (\<lambda>x. x \<noteq> dq) (drop (length lit) (c # cs)))
      else re_match lit cs)"

section \<open>The extraction state and one pass of the loop body\<close>

text \<open>
  The three local variables of \<^verbatim>\<open>fetchAIGeneratedDiff\<close> (lines 199-202) and the pure part of
  the loop body (lines 209-215): append the decoded chunk, match both patterns against
  the whole buffer, and keep the previous value of a field whose pattern does not match.
\<close>

record extraction =
  accumulated :: string
  finalDeveloper :: string
  finalMarketing :: string

definition extraction_init :: extraction where
  "extraction_init = \<lparr>accumulated = [], finalDeveloper = [], finalMarketing = []\<rparr>"

definition extract_step :: "extraction \<Rightarrow> string \<Rightarrow> extraction" where
  "extract_step x chunk =
     (let accumulated' = accumulated x @ chunk;
          devMatch = re_match developer_re accumulated';
          mktMatch = re_match marketing_re accumulated'
      in \<lparr>accumulated = accumulated',
          finalDeveloper = (case devMatch of Some v \<Rightarrow> v | None \<Rightarrow> finalDeveloper x),
          finalMarketing = (case mktMatch of Some v \<Rightarrow> v | None \<Rightarrow> finalMarketing x)\<rparr>)"


section \<open>Records of the listing and of the cache\<close>

text \<open>
  \<^verbatim>\<open>DiffItem\<close> and \<^verbatim>\<open>ApiResponse\<close> are the interfaces of \<^verbatim>\<open>src/app/page.tsx\<close>, lines 16-28;
  \<^verbatim>\<open>DiffEntity\<close> is the interface of \<^verbatim>\<open>src/lib/db.ts\<close>, lines 3-12. An entity has the four
  fields of an item and four more, so it extends the item record. An optional field is an
  \<open>option\<close>, \<^verbatim>\<open>number | null\<close> as well; a \<^verbatim>\<open>number\<close> that holds a page or a time in
  milliseconds is an \<open>int\<close>.
\<close>

record DiffItem =
  id' :: string
  description :: string
  diff :: string
  url :: string

record DiffEntity = DiffItem +
  fetchedAt :: int
  summaryDeveloper :: "string option"
  summaryMarketing :: "string option"
  summaryUpdatedAt :: "int option"

record ApiResponse =
  diffs :: "DiffItem list"
  nextPage :: "int option"
  currentPage :: int
  perPage :: int

subsection \<open>The table \<^verbatim>\<open>db.diffs\<close>\<close>

text \<open>
  \<^verbatim>\<open>src/lib/db.ts\<close> declares one Dexie table, \<^verbatim>\<open>diffs: "id, fetchedAt"\<close>, whose primary
  key is the property \<^verbatim>\<open>id\<close> of the stored object. The table operations themselves are
  library code that is not part of the sources; the four used by the page are modelled
  below from the cache contract of the specification (section 4.2). A table is the list
  of its entities; the ids of a table are distinct. The result of an operation is a
  promise: whether it resolves or rejects is decided by the store, so it is an input of
  the model.
\<close>

type_synonym table = "DiffEntity list"

datatype db_outcome = Resolves | RejectsWith string

record changes =
  c_description :: "string option"
  c_diff :: "string option"
  c_url :: "string option"
  c_fetchedAt :: "int option"
  c_summaryDeveloper :: "string option"
  c_summaryMarketing :: "string option"
  c_summaryUpdatedAt :: "int option"

definition no_changes :: changes where
  "no_changes = \<lparr>c_description = None, c_diff = None, c_url = None, c_fetchedAt = None,
     c_summaryDeveloper = None, c_summaryMarketing = None, c_summaryUpdatedAt = None\<rparr>"

text \<open>
  Modelled from the spec: \<^verbatim>\<open>getAll()\<close>, Dexie's \<^verbatim>\<open>Table.toArray\<close>, which is missing from the
  sources: it returns every stored record, in no order a caller relies on.
\<close>

definition table_toArray :: "table \<Rightarrow> DiffEntity list" where
  "table_toArray t = t"

text \<open>
  Modelled from the spec: one record of \<^verbatim>\<open>upsertMany(records)\<close>, Dexie's \<^verbatim>\<open>Table.put\<close>, which
  is missing from the sources: a record whose id is stored replaces the stored record as
  a whole, a record whose id is new is inserted.
\<close>

definition table_put :: "DiffEntity \<Rightarrow> table \<Rightarrow> table" where
  "table_put e t =
     (if id' e \<in> id' ` set t then map (\<lambda>x. if id' x = id' e then e else x) t
      else t @ [e])"

text \<open>
  Modelled from the spec: \<^verbatim>\<open>upsertMany(records)\<close>, Dexie's \<^verbatim>\<open>Table.bulkPut\<close>, which is missing
  from the sources: it inserts or fully replaces the records by id, in the order given.
\<close>

definition table_bulkPut :: "DiffEntity list \<Rightarrow> table \<Rightarrow> table" where
  "table_bulkPut es t = fold table_put es t"

text \<open>
  Modelled from the spec: the merge of \<^verbatim>\<open>updateFields(id, partialFields)\<close>, which is missing
  from the sources: a field that is given replaces the stored one, a field that is not
  given stays.
\<close>

definition apply_changes :: "changes \<Rightarrow> DiffEntity \<Rightarrow> DiffEntity" where
  "apply_changes c e =
     e\<lparr>description := (case c_description c of Some v \<Rightarrow> v | None \<Rightarrow> description e),
       diff := (case c_diff c of Some v \<Rightarrow> v | None \<Rightarrow> diff e),
       url := (case c_url c of Some v \<Rightarrow> v | None \<Rightarrow> url e),
       fetchedAt := (case c_fetchedAt c of Some v \<Rightarrow> v | None \<Rightarrow> fetchedAt e),
       summaryDeveloper :=
         (case c_summaryDeveloper c of Some v \<Rightarrow> Some v | None \<Rightarrow> summaryDeveloper e),
       summaryMarketing :=
         (case c_summaryMarketing c of Some v \<Rightarrow> Some v | None \<Rightarrow> summaryMarketing e),
       summaryUpdatedAt :=
         (case c_summaryUpdatedAt c of Some v \<Rightarrow> Some v | None \<Rightarrow> summaryUpdatedAt e)\<rparr>"

text \<open>
  Modelled from the spec: \<^verbatim>\<open>updateFields(id, partialFields)\<close>, Dexie's \<^verbatim>\<open>Table.update\<close>, which
  is missing from the sources: it merges the given fields into the record stored for the
  id, and does nothing when no record is stored for it.
\<close>

definition table_update :: "string \<Rightarrow> changes \<Rightarrow> table \<Rightarrow> table" where
  "table_update key c t = map (\<lambda>x. if id' x = key then apply_changes c x else x) t"

text \<open>
  Modelled from the spec: \<^verbatim>\<open>clearAll()\<close>, Dexie's \<^verbatim>\<open>Table.clear\<close>, which is missing from the
  sources: it deletes every record.
\<close>

definition table_clear :: "table \<Rightarrow> table" where
  "table_clear t = []"

definition table_get :: "string \<Rightarrow> table \<Rightarrow> DiffEntity option" where
  "table_get key t = find (\<lambda>x. id' x = key) t"


section \<open>The state of the page\<close>

text \<open>
  The state variables of the component \<^verbatim>\<open>Home\<close> (lines 31-53), the table \<^verbatim>\<open>db.diffs\<close> and
  the lines written to the console. An object used as a dictionary
  (\<^verbatim>\<open>Record<string, ...>\<close>) is a map. State updates take effect in the order of the calls
  that request them. An updater that reads nothing but the previous state leaves the same
  state whenever it runs, and is applied where the source calls for it. The updaters of
  \<^verbatim>\<open>generatedSummaries\<close> are queued instead, see below: the one of lines 217-233 reads
  variables that change after the call, reads the clock and starts a write, so it
  matters when it runs. A console call with a label and an error prints both, separated
  by a space. One generation runs at a time for an
  item; the interleaving of several requests is not part of the model.
\<close>

record summaries =
  developer :: string
  marketing :: string

record Home =
  diffs :: "DiffItem list"
  isLoading :: bool
  error :: "string option"
  currentPage :: int
  nextPage :: "int option"
  initialFetchDone :: bool
  generatedSummaries :: "string \<rightharpoonup> summaries"
  loadingSummaries :: "string \<rightharpoonup> bool"
  summaryErrors :: "string \<rightharpoonup> string"
  openItems :: "string list"
  db_diffs :: table
  console :: "string list"

text \<open>
  \<^verbatim>\<open>a || b\<close> on strings: the empty string is falsy. \<^verbatim>\<open>undefined\<close>, the value of a missing
  property or of an optional chain on a missing entry, is falsy as well.
\<close>

definition or_else :: "string \<Rightarrow> string \<Rightarrow> string" where
  "or_else a b = (if a \<noteq> [] then a else b)"

definition or_undefined :: "string option \<Rightarrow> string \<Rightarrow> string" where
  "or_undefined a b = (case a of Some v \<Rightarrow> or_else v b | None \<Rightarrow> b)"

text \<open>The decimal digits of a number, as a template literal prints a status code.\<close>

fun digits :: "nat \<Rightarrow> string" where
  "digits n =
     (if n < 10 then [char_of (48 + n)]
      else digits (n div 10) @ [char_of (48 + n mod 10)])"

declare digits.simps [simp del]

subsection \<open>The effect that runs at startup (lines 55-80)\<close>

definition storedSummaries :: "DiffEntity list \<Rightarrow> (string \<rightharpoonup> summaries)" where
  "storedSummaries storedDiffs =
     fold (\<lambda>d m.
        if or_undefined (summaryDeveloper d) [] \<noteq> [] \<or> or_undefined (summaryMarketing d) [] \<noteq> []
        then m(id' d \<mapsto> \<lparr>developer = or_undefined (summaryDeveloper d) [],
                         marketing = or_undefined (summaryMarketing d) []\<rparr>)
        else m) storedDiffs Map.empty"

definition startup :: "db_outcome \<Rightarrow> Home \<Rightarrow> Home" where
  "startup loaded h =
     (case loaded of
        RejectsWith err \<Rightarrow> h\<lparr>console := console h @ [''Failed to load stored diffs '' @ err]\<rparr>
      | Resolves \<Rightarrow>
          (let storedDiffs = table_toArray (db_diffs h)
           in if storedDiffs \<noteq> []
              then h\<lparr>diffs := map DiffItem.truncate storedDiffs,
                     generatedSummaries := storedSummaries storedDiffs\<rparr>
              else h))"

subsection \<open>Fetching a page of the listing (lines 100-150)\<close>

text \<open>
  What the request of \<^verbatim>\<open>fetchDiffs\<close> comes back with: \<^verbatim>\<open>fetchWithTimeout\<close> throws (with the
  message of the error, or something that is not an \<^verbatim>\<open>Error\<close>), the response is not ok (with
  its status and the \<^verbatim>\<open>error\<close> and \<^verbatim>\<open>details\<close> of its body when the body is JSON), the body
  is not JSON, or the body is a page. \<^verbatim>\<open>Date.now()\<close> is read once for each item of the page:
  \<open>clock i\<close> is the reading for item \<open>i\<close>.
\<close>

datatype listing_fetch =
  ListingThrows "string option"
  | ListingNotOk nat "(string \<times> string) option"
  | ListingMalformed
  | ListingPage ApiResponse

definition entities_of :: "DiffItem list \<Rightarrow> (nat \<Rightarrow> int) \<Rightarrow> DiffEntity list" where
  "entities_of ds clock =
     map (\<lambda>(i, d). \<lparr>id' = id' d, description = description d, diff = diff d, url = url d,
                     fetchedAt = clock i, summaryDeveloper = None, summaryMarketing = None,
                     summaryUpdatedAt = None\<rparr>) (enumerate 0 ds)"

definition fetchDiffs :: "int \<Rightarrow> listing_fetch \<Rightarrow> (nat \<Rightarrow> int) \<Rightarrow> db_outcome \<Rightarrow> Home \<Rightarrow> Home" where
  "fetchDiffs page fetched clock persisted h =
     (let h0 = h\<lparr>isLoading := True, error := None\<rparr>;
          h1 =
            (case fetched of
               ListingThrows m \<Rightarrow>
                 h0\<lparr>error := Some (case m of Some msg \<Rightarrow> msg | None \<Rightarrow> ''An unknown error occurred'')\<rparr>
             | ListingNotOk status errorData \<Rightarrow>
                 (let errorMsg = ''HTTP error! status: '' @ digits status
                  in h0\<lparr>error := Some (case errorData of
                                          Some (e, d) \<Rightarrow> or_else e (or_else d errorMsg)
                                        | None \<Rightarrow> errorMsg),
                         console := (case errorData of
                                       Some _ \<Rightarrow> console h0
                                     | None \<Rightarrow> console h0 @ [''Failed to parse error response as JSON''])\<rparr>)
             | ListingMalformed \<Rightarrow> h0\<lparr>error := Some ''Malformed JSON received from server''\<rparr>
             | ListingPage data \<Rightarrow>
                 (let h2 = h0\<lparr>diffs := (if page = 1 then ApiResponse.diffs data
                                          else diffs h0 @ ApiResponse.diffs data)\<rparr>;
                      entities = entities_of (ApiResponse.diffs data) clock;
                      h3 = (case persisted of
                              Resolves \<Rightarrow> h2\<lparr>db_diffs := table_bulkPut entities (db_diffs h2)\<rparr>
                            | RejectsWith e \<Rightarrow> h2\<lparr>console := console h2 @ [''Failed to persist diffs '' @ e]\<rparr>)
                  in h3\<lparr>currentPage := ApiResponse.currentPage data,
                         nextPage := ApiResponse.nextPage data,
                         initialFetchDone := True\<rparr>))
      in h1\<lparr>isLoading := False\<rparr>)"


subsection \<open>The listing response as it arrives\<close>

text \<open>
  \<^verbatim>\<open>data = await response.json()\<close> (line 121) casts the parsed JSON to \<^verbatim>\<open>ApiResponse\<close>
  without a check, so \<^verbatim>\<open>fetchDiffs\<close> above is the function on a response of the declared
  type. What the same lines do with any parsed JSON is below: a property read \<^verbatim>\<open>v.name\<close>
  throws a \<^verbatim>\<open>TypeError\<close> on \<^verbatim>\<open>null\<close> and gives \<^verbatim>\<open>undefined\<close> (here \<open>None\<close>) when the value
  has no such property. \<^verbatim>\<open>JSON.parse\<close> keeps the last of two properties of one name. The
  names read by the page are not names of a property of an array or of a string.
\<close>

datatype json =
  JNull
  | JBool bool
  | JNumber int
  | JString string
  | JArray "json list"
  | JObject "(string \<times> json) list"

datatype js_error = TypeError

definition get_prop :: "json \<Rightarrow> string \<Rightarrow> js_error + json option" where
  "get_prop j name =
     (case j of
        JNull \<Rightarrow> Inl TypeError
      | JObject fs \<Rightarrow> Inr (map_of (rev fs) name)
      | _ \<Rightarrow> Inr None)"

definition truthy :: "json option \<Rightarrow> bool" where
  "truthy v =
     (case v of
        None \<Rightarrow> False
      | Some JNull \<Rightarrow> False
      | Some (JBool b) \<Rightarrow> b
      | Some (JNumber n) \<Rightarrow> n \<noteq> 0
      | Some (JString s) \<Rightarrow> s \<noteq> []
      | Some _ \<Rightarrow> True)"

text \<open>
  \<^verbatim>\<open>[...v]\<close> iterates \<open>v\<close>: an array gives its elements, a string its characters, anything
  else is not iterable. \<^verbatim>\<open>{...d}\<close> copies the own properties of \<open>d\<close>: those of an object,
  the indexed elements of an array or of a string, none of any other value.
\<close>

definition iterate :: "json option \<Rightarrow> js_error + json list" where
  "iterate v =
     (case v of
        Some (JArray xs) \<Rightarrow> Inr xs
      | Some (JString s) \<Rightarrow> Inr (map (\<lambda>c. JString [c]) s)
      | _ \<Rightarrow> Inl TypeError)"

definition own_props :: "json \<Rightarrow> (string \<times> json) list" where
  "own_props d =
     (case d of
        JObject fs \<Rightarrow> fs
      | JArray xs \<Rightarrow> map (\<lambda>(i, x). (digits i, x)) (enumerate 0 xs)
      | JString s \<Rightarrow> map (\<lambda>(i, c). (digits i, JString [c])) (enumerate 0 s)
      | _ \<Rightarrow> [])"

text \<open>
  Lines 126-128: the updater of \<^verbatim>\<open>setDiffs\<close>, applied to the list shown before. Lines
  131-135: the entities handed to \<^verbatim>\<open>bulkPut\<close>, or the \<^verbatim>\<open>TypeError\<close> that line 136 catches
  when \<^verbatim>\<open>data.diffs\<close> has no \<^verbatim>\<open>map\<close>. Lines 140-141: the two values of the paging state.
\<close>

definition next_diffs :: "int \<Rightarrow> json option \<Rightarrow> json \<Rightarrow> js_error + json option" where
  "next_diffs page prevDiffs data =
     (if page = 1 then get_prop data ''diffs''
      else (case (iterate prevDiffs, get_prop data ''diffs'') of
              (Inr a, Inr v) \<Rightarrow>
                (case iterate v of Inr b \<Rightarrow> Inr (Some (JArray (a @ b))) | Inl e \<Rightarrow> Inl e)
            | (Inl e, _) \<Rightarrow> Inl e
            | (_, Inl e) \<Rightarrow> Inl e))"

definition handed_to_bulkPut :: "json \<Rightarrow> (nat \<Rightarrow> int) \<Rightarrow> js_error + json list" where
  "handed_to_bulkPut data clock =
     (case get_prop data ''diffs'' of
        Inr (Some (JArray xs)) \<Rightarrow>
          Inr (map (\<lambda>(i, d). JObject (own_props d @ [(''fetchedAt'', JNumber (clock i))]))
                 (enumerate 0 xs))
      | _ \<Rightarrow> Inl TypeError)"

record received =
  shown :: "js_error + json option"
  handed :: "js_error + json list"
  page_now :: "js_error + json option"
  page_next :: "js_error + json option"

definition receive :: "int \<Rightarrow> json option \<Rightarrow> json \<Rightarrow> (nat \<Rightarrow> int) \<Rightarrow> received" where
  "receive page prevDiffs data clock =
     \<lparr>shown = next_diffs page prevDiffs data,
      handed = handed_to_bulkPut data clock,
      page_now = get_prop data ''currentPage'',
      page_next = get_prop data ''nextPage''\<rparr>"

text \<open>
  Lines 395-408: what the entry of an item takes from the item, its key and label
  (\<^verbatim>\<open>item.id\<close>), the target of its link (\<^verbatim>\<open>item.url\<close>) and its text (\<^verbatim>\<open>item.description\<close>).
\<close>

record entry =
  label :: "json option"
  href :: "json option"
  caption :: "json option"

definition entry_of :: "json \<Rightarrow> js_error + entry" where
  "entry_of item =
     (case (get_prop item ''id'', get_prop item ''url'', get_prop item ''description'') of
        (Inr i, Inr u, Inr d) \<Rightarrow> Inr \<lparr>label = i, href = u, caption = d\<rparr>
      | _ \<Rightarrow> Inl TypeError)"

text \<open>
  Line 169: the body of the generation request, \<^verbatim>\<open>JSON.stringify({ diffItem: diff })\<close>, as
  the route parses it back; \<open>json_of_item\<close> is an item of the declared type as JSON.
  \<^verbatim>\<open>src/app/api/ai-generated-diff/route.ts\<close>, lines 5-32 and 109-118: the checks of the
  route before it calls the model. The result is the status and the \<^verbatim>\<open>error\<close> of the
  response that refuses the request, or the description and the diff that go into the
  prompt. \<open>has_key\<close> says whether the API key is set, the body is \<open>None\<close> when it is not
  JSON.
\<close>

definition request_body :: "json \<Rightarrow> json" where
  "request_body item = JObject [(''diffItem'', item)]"

definition json_of_item :: "DiffItem \<Rightarrow> json" where
  "json_of_item d = JObject
     [(''id'', JString (id' d)), (''description'', JString (description d)),
      (''diff'', JString (diff d)), (''url'', JString (url d))]"

definition POST_checks :: "bool \<Rightarrow> json option \<Rightarrow> nat \<times> string + json \<times> json" where
  "POST_checks has_key body =
     (if \<not> has_key then Inl (500, ''Missing OpenAI API key.'')
      else case body of
        None \<Rightarrow> Inl (400, ''Malformed JSON in request body.'')
      | Some b \<Rightarrow>
          (case get_prop b ''diffItem'' of
             Inl e \<Rightarrow> Inl (500, ''Failed to generate release notes.'')
           | Inr diffItem \<Rightarrow>
               (case diffItem of
                  None \<Rightarrow> Inl (400, ''diffItem with description and diff is required.'')
                | Some item \<Rightarrow>
                    (case (truthy diffItem, get_prop item ''description'', get_prop item ''diff'') of
                       (True, Inr (Some d), Inr (Some f)) \<Rightarrow>
                         (if truthy (Some d) \<and> truthy (Some f) then Inr (d, f)
                          else Inl (400, ''diffItem with description and diff is required.''))
                     | _ \<Rightarrow> Inl (400, ''diffItem with description and diff is required.'')))))"

subsection \<open>Generating the notes of one item (lines 152-253)\<close>

text \<open>
  The state updaters of \<^verbatim>\<open>generatedSummaries\<close> that one generation requests: the reset of
  lines 153-156 and, in each pass of the loop, the updater of lines 217-233. React puts
  an updater in the queue of the state variable when the setter is called and runs the
  queued updaters in order when it next processes the queue; whether that is before the
  next pass of the loop, after several passes or after the function has returned is
  decided by its scheduler. So the schedule is an input: an event is a chunk delivered
  by the reader (\<open>Read\<close>, with the text \<^verbatim>\<open>decoder.decode(value)\<close>), or React running the
  oldest queued updater (\<open>Run\<close>, with the reading of \<^verbatim>\<open>Date.now()\<close> and the outcome of the
  promise of \<^verbatim>\<open>db.diffs.update\<close> in case that updater is one of a pass). A queued updater
  of a pass reads \<^verbatim>\<open>finalDeveloper\<close> and \<^verbatim>\<open>finalMarketing\<close> when it runs: they are variables
  of the function, declared outside the loop. An updater runs once.

  The body of a response is the events until its reader ends, and then how it ends:
  \<^verbatim>\<open>done\<close>, or \<^verbatim>\<open>reader.read()\<close> throws an error with a message (empty when it has none). A
  body is finite; a reader that neither ends nor throws keeps the loop waiting and is
  not a value of the type. The chunks are text: what the decoder makes of bytes that end
  inside a character is not part of the model.
\<close>

datatype event = Read string | Run int db_outcome

datatype updater = Reset | Partial

datatype stream_end = StreamDone | ReadThrows string

record body =
  events :: "event list"
  ending :: stream_end

fun chunks :: "event list \<Rightarrow> string list" where
  "chunks [] = []"
| "chunks (Read c # es) = c # chunks es"
| "chunks (Run t saved # es) = chunks es"

text \<open>
  A generation under way: the three variables of lines 199-202, the updaters of
  \<^verbatim>\<open>generatedSummaries\<close> that are requested and have not run, and the page.
\<close>

record generation =
  locals :: extraction
  queue :: "updater list"
  home :: Home

text \<open>
  What the request of \<^verbatim>\<open>fetchAIGeneratedDiff\<close> comes back with: \<^verbatim>\<open>fetchWithTimeout\<close> throws
  (an \<^verbatim>\<open>AbortError\<close> or not, with its message), or there is a response with \<^verbatim>\<open>ok\<close>, \<^verbatim>\<open>status\<close>,
  the \<^verbatim>\<open>error\<close> and \<^verbatim>\<open>details\<close> of its body when that is JSON, and its \<^verbatim>\<open>body\<close> stream if
  it has one.
\<close>

datatype generation_fetch =
  FetchThrows bool string
  | Response bool nat "(string \<times> string) option" "body option"

definition summary_changes :: "string \<Rightarrow> string \<Rightarrow> int \<Rightarrow> changes" where
  "summary_changes dev mkt t =
     no_changes\<lparr>c_summaryDeveloper := Some dev, c_summaryMarketing := Some mkt,
                c_summaryUpdatedAt := Some t\<rparr>"

text \<open>
  Lines 153-158 and 199-202: the reset of the values shown is requested, the item is
  loading and has no error, the variables of the loop are empty.
\<close>

definition begin_generation :: "string \<Rightarrow> Home \<Rightarrow> generation" where
  "begin_generation key h =
     \<lparr>locals = extraction_init,
      queue = [Reset],
      home = h\<lparr>loadingSummaries := (loadingSummaries h)(key \<mapsto> True),
               summaryErrors := (summaryErrors h)(key \<mapsto> [])\<rparr>\<rparr>"

text \<open>
  One updater runs, with the variables as they are then: the reset of lines 154-155, or
  the updater of lines 218-232 with the write it starts.
\<close>

definition run_updater ::
  "string \<Rightarrow> extraction \<Rightarrow> updater \<Rightarrow> int \<Rightarrow> db_outcome \<Rightarrow> Home \<Rightarrow> Home" where
  "run_updater key x u t saved h =
     (case u of
        Reset \<Rightarrow>
          h\<lparr>generatedSummaries := (generatedSummaries h)(key \<mapsto> \<lparr>developer = [], marketing = []\<rparr>)\<rparr>
      | Partial \<Rightarrow>
          (let prev = generatedSummaries h key;
               updated = \<lparr>developer = or_else (finalDeveloper x)
                                         (or_undefined (map_option developer prev) []),
                          marketing = or_else (finalMarketing x)
                                         (or_undefined (map_option marketing prev) [])\<rparr>;
               h' = h\<lparr>generatedSummaries := (generatedSummaries h)(key \<mapsto> updated)\<rparr>
           in case saved of
                Resolves \<Rightarrow>
                  h'\<lparr>db_diffs := table_update key
                        (summary_changes (developer updated) (marketing updated) t) (db_diffs h')\<rparr>
              | RejectsWith e \<Rightarrow>
                  h'\<lparr>console := console h' @ [''Dexie partial save failed '' @ e]\<rparr>))"

text \<open>
  Lines 206-217: a pass of the loop for a chunk that was read; it sets the variables and
  requests its updater. And React running the oldest queued updater, if there is one.
\<close>

definition on_event :: "string \<Rightarrow> generation \<Rightarrow> event \<Rightarrow> generation" where
  "on_event key g e =
     (case e of
        Read c \<Rightarrow> g\<lparr>locals := extract_step (locals g) c, queue := queue g @ [Partial]\<rparr>
      | Run t saved \<Rightarrow>
          (case queue g of
             [] \<Rightarrow> g
           | u # q \<Rightarrow> g\<lparr>queue := q, home := run_updater key (locals g) u t saved (home g)\<rparr>))"

text \<open>Lines 204-207 and 234: the loop, until the reader ends.\<close>

definition read_loop :: "string \<Rightarrow> event list \<Rightarrow> generation \<Rightarrow> generation" where
  "read_loop key es g = fold (\<lambda>e g. on_event key g e) es g"

text \<open>Lines 235-240: an error thrown by the reader is shown for the item.\<close>

definition stream_ended :: "string \<Rightarrow> stream_end \<Rightarrow> Home \<Rightarrow> Home" where
  "stream_ended key e h =
     (case e of
        StreamDone \<Rightarrow> h
      | ReadThrows m \<Rightarrow>
          (let message = or_else m ''Error while reading AI stream.''
           in h\<lparr>console := console h @ [message],
                summaryErrors := (summaryErrors h)(key \<mapsto> message)\<rparr>))"

text \<open>Lines 242-250: the final write of the two values the loop ended with.\<close>

definition final_store :: "string \<Rightarrow> extraction \<Rightarrow> int \<Rightarrow> db_outcome \<Rightarrow> Home \<Rightarrow> Home" where
  "final_store key x t stored h =
     (case stored of
        Resolves \<Rightarrow>
          h\<lparr>db_diffs := table_update key
               (summary_changes (finalDeveloper x) (finalMarketing x) t) (db_diffs h)\<rparr>
      | RejectsWith e \<Rightarrow> h\<lparr>console := console h @ [''Failed to store summary '' @ e]\<rparr>)"

text \<open>
  After the function has returned React runs the updaters that are still queued, in
  order; \<open>later i\<close> is the clock and the outcome of the write for the \<open>i\<close>-th of them.
\<close>

fun settle ::
  "string \<Rightarrow> extraction \<Rightarrow> (nat \<Rightarrow> int \<times> db_outcome) \<Rightarrow> nat \<Rightarrow> updater list \<Rightarrow> Home \<Rightarrow> Home" where
  "settle key x later i [] h = h"
| "settle key x later i (u # q) h =
     settle key x later (Suc i) q (run_updater key x u (fst (later i)) (snd (later i)) h)"

text \<open>
  The function as a whole; its value is the page when every updater it requested has
  run. \<open>returned\<close> is the generation when the function returns: the final write of lines
  242-250 is started before any updater that is still queued runs.
\<close>

definition returned ::
  "DiffItem \<Rightarrow> generation_fetch \<Rightarrow> int \<Rightarrow> db_outcome \<Rightarrow> Home \<Rightarrow> generation" where
  "returned d fetched final_now stored h =
     (let key = id' d;
          g0 = begin_generation key h;
          failed = (\<lambda>line message.
             g0\<lparr>home := (home g0)
                  \<lparr>console := console (home g0) @ [line],
                   summaryErrors := (summaryErrors (home g0))(key \<mapsto> message),
                   loadingSummaries := (loadingSummaries (home g0))(key \<mapsto> False)\<rparr>\<rparr>)
      in case fetched of
           FetchThrows abort m \<Rightarrow>
             (let message = (if abort then ''Request timed out. Please try again.''
                             else or_else m ''Failed to fetch AI generated summary.'')
              in failed (''AI generation error: '' @ message) message)
         | Response ok status errJson b \<Rightarrow>
             (case (if ok then b else None) of
                None \<Rightarrow>
                  (let errorMsg0 = ''Failed to fetch AI generated summary (status ''
                         @ digits status @ '')'';
                       errorMsg = (case errJson of
                                     Some (e, dt) \<Rightarrow> or_else e (or_else dt errorMsg0)
                                   | None \<Rightarrow> errorMsg0)
                   in failed errorMsg errorMsg)
              | Some bd \<Rightarrow>
                  (let g = read_loop key (events bd) g0;
                       h1 = stream_ended key (ending bd) (home g);
                       h2 = final_store key (locals g) final_now stored h1
                   in g\<lparr>home := h2\<lparr>loadingSummaries := (loadingSummaries h2)(key \<mapsto> False)\<rparr>\<rparr>)))"

definition fetchAIGeneratedDiff ::
  "DiffItem \<Rightarrow> generation_fetch \<Rightarrow> int \<Rightarrow> db_outcome \<Rightarrow> (nat \<Rightarrow> int \<times> db_outcome) \<Rightarrow> Home
     \<Rightarrow> Home" where
  "fetchAIGeneratedDiff d fetched final_now stored later h =
     (let g = returned d fetched final_now stored h
      in settle (id' d) (locals g) later 0 (queue g) (home g))"

section \<open>The complete payload\<close>

text \<open>
  The text a complete answer adds up to, for a developer note \<open>D\<close> and a marketing note
  \<open>M\<close>: an opening brace, the two quoted fields separated by a comma, a closing brace.
\<close>

definition payload :: "string \<Rightarrow> string \<Rightarrow> string" where
  "payload D M =
     ''{'' @ developer_re @ D @ [dq] @ '','' @ marketing_re @ M @ [dq] @ ''}''"


section \<open>Concrete inputs\<close>

text \<open>
  The state of the page before anything is fetched: the initial values of the state
  variables (lines 31-53), an empty table, an empty console.
\<close>

definition home_init :: Home where
  "home_init = \<lparr>diffs = [], isLoading = False, error = None, currentPage = 1,
     nextPage = None, initialFetchDone = False, generatedSummaries = Map.empty,
     loadingSummaries = Map.empty, summaryErrors = Map.empty, openItems = [],
     db_diffs = [], console = []\<rparr>"

text \<open>
  An item of the listing, the entity cached for it with notes of an earlier generation,
  and the page with that entity in its table.
\<close>

definition item7 :: DiffItem where
  "item7 = \<lparr>id' = ''7'', description = ''Fix crash on empty input'',
     diff = ''@@ -1 +1 @@'', url = ''https://example.org/pull/7''\<rparr>"

definition entity7 :: DiffEntity where
  "entity7 = \<lparr>id' = ''7'', description = ''Fix crash on empty input'',
     diff = ''@@ -1 +1 @@'', url = ''https://example.org/pull/7'', fetchedAt = 50,
     summaryDeveloper = Some ''Old developer note'',
     summaryMarketing = Some ''Old marketing note'', summaryUpdatedAt = Some 60\<rparr>"

definition home_cached :: Home where
  "home_cached = home_init\<lparr>diffs := [item7], db_diffs := [entity7]\<rparr>"

text \<open>A page of the listing that holds the item again, fetched at time 70.\<close>

definition page_one :: ApiResponse where
  "page_one = \<lparr>ApiResponse.diffs = [item7], ApiResponse.nextPage = None,
     ApiResponse.currentPage = 1, perPage = 10\<rparr>"

text \<open>
  The same page as JSON, once with the property names the page reads, once with the
  names of section 6 of the specification, and the record of each.
\<close>

definition wire_item :: json where
  "wire_item = JObject
     [(''id'', JString ''7''), (''description'', JString ''Fix crash on empty input''),
      (''diff'', JString ''@@ -1 +1 @@''), (''url'', JString ''https://example.org/pull/7'')]"

definition wire_page :: json where
  "wire_page = JObject
     [(''diffs'', JArray [wire_item]),
      (''nextPage'', JNull), (''currentPage'', JNumber 1), (''perPage'', JNumber 10)]"

definition wire_item_spec_names :: json where
  "wire_item_spec_names = JObject
     [(''id'', JString ''7''), (''description'', JString ''Fix crash on empty input''),
      (''diffText'', JString ''@@ -1 +1 @@''),
      (''sourceUrl'', JString ''https://example.org/pull/7'')]"

definition wire_page_spec_names :: json where
  "wire_page_spec_names = JObject
     [(''items'', JArray [wire_item_spec_names]),
      (''nextPageToken'', JNull), (''currentPage'', JNumber 1), (''pageSize'', JNumber 10)]"

text \<open>
  A complete payload in four chunks, cut inside a field name and inside the separator
  between the fields. The reset runs before the first chunk, the updaters of the second
  and third pass run after the third pass, the others right after their pass; every
  write is saved.
\<close>

definition four_reads :: "event list" where
  "four_reads =
     [Run 99 Resolves,
      Read (''{'' @ [dq] @ ''developer_''),
      Run 100 Resolves,
      Read (''notes'' @ [dq] @ '':'' @ [dq] @ ''Fix bug'' @ [dq] @ '','' @ [dq]),
      Read (''marketing_notes'' @ [dq] @ '':'' @ [dq] @ ''See fewer crashes!''),
      Run 101 Resolves,
      Run 102 Resolves,
      Read ([dq] @ ''}''),
      Run 103 Resolves]"

text \<open>
  Two chunks of an answer: after the first the developer pattern matches and the
  marketing pattern does not, after the second both match.
\<close>

definition chunk_developer :: string where
  "chunk_developer = ''{'' @ [dq] @ ''developer_notes'' @ [dq] @ '':'' @ [dq] @ ''Fix bug''
     @ [dq] @ '','' @ [dq]"


text \<open>
  The value of capture group 1 against a buffer, and the empty string when the pattern
  does not match: what the loop holds for a field, as the invariant below shows.
\<close>

definition capture :: "string \<Rightarrow> string \<Rightarrow> string" where
  "capture lit buf = (case re_match lit buf of Some v \<Rightarrow> v | None \<Rightarrow> [])"

definition consistent :: "extraction \<Rightarrow> bool" where
  "consistent x \<longleftrightarrow>
     finalDeveloper x = capture developer_re (accumulated x) \<and>
     finalMarketing x = capture marketing_re (accumulated x)"

text \<open>
  The invariant of a generation for the item \<open>key\<close>: the two variables are the captures
  of the buffer; the reset is the first updater of the queue or has run; and once it has
  run, the values shown for the item are values the variables held before.
\<close>

definition behind :: "string \<Rightarrow> generation \<Rightarrow> bool" where
  "behind key g \<longleftrightarrow>
     (\<exists>a b. generatedSummaries (home g) key = Some \<lparr>developer = a, marketing = b\<rparr>
        \<and> prefix a (finalDeveloper (locals g)) \<and> prefix b (finalMarketing (locals g)))"

definition tracked :: "string \<Rightarrow> generation \<Rightarrow> bool" where
  "tracked key g \<longleftrightarrow>
     consistent (locals g) \<and> Reset \<notin> set (tl (queue g))
     \<and> ((\<exists>q. queue g = Reset # q) \<or> behind key g)"

text \<open>
  Two generations agree in what they show when they hold the same variables, the same
  queue and the same values shown; two events have the same shape when they are the same
  chunk, or both a run of an updater.
\<close>

definition shape :: "event \<Rightarrow> string option" where
  "shape e = (case e of Read c \<Rightarrow> Some c | Run t saved \<Rightarrow> None)"

definition saves :: "event \<Rightarrow> bool" where
  "saves e = (case e of Read c \<Rightarrow> True | Run t saved \<Rightarrow> saved = Resolves)"

section \<open>Properties of the patterns\<close>


lemma takeWhile_upto_dq:
  "dq \<notin> set v \<Longrightarrow> takeWhile (\<lambda>x. x \<noteq> dq) (v @ dq # r) = v"
  by (induction v) auto

lemma takeWhile_no_dq:
  "dq \<notin> set v \<Longrightarrow> takeWhile (\<lambda>x. x \<noteq> dq) v = v"
  by (induction v) auto

lemma re_match_length:
  "re_match lit s = Some v \<Longrightarrow> length lit \<le> length s"
proof (induction s)
  case Nil
  then show ?case by (simp split: if_splits)
next
  case (Cons c cs)
  then show ?case
    by (auto split: if_splits dest: prefix_length_le)
qed

lemma re_match_at_literal:
  "re_match lit (lit @ r) = Some (takeWhile (\<lambda>x. x \<noteq> dq) r)"
proof (cases "lit @ r")
  case Nil
  then show ?thesis by simp
next
  case (Cons a list)
  have "prefix lit (a # list)"
    unfolding Cons [symmetric] by simp
  moreover have "drop (length lit) (a # list) = r"
    unfolding Cons [symmetric] by simp
  ultimately show ?thesis
    unfolding Cons by simp
qed

lemma re_match_skip:
  "\<not> prefix lit (c # cs) \<Longrightarrow> re_match lit (c # cs) = re_match lit cs"
  by simp

lemma re_match_skip_run:
  "dq \<notin> set v \<Longrightarrow> re_match (dq # l) (v @ r) = re_match (dq # l) r"
  by (induction v) auto

lemma re_match_append:
  "re_match lit s = Some v \<Longrightarrow>
     \<exists>w. re_match lit (s @ t) = Some (v @ w)"
proof (induction s)
  case Nil
  then have "lit = []" "v = []" by (auto split: if_splits)
  then show ?case by (cases t) auto
next
  case (Cons c cs)
  show ?case
  proof (cases "prefix lit (c # cs)")
    case True
    then obtain r where r: "c # cs = lit @ r" by (auto simp: prefix_def)
    have v: "v = takeWhile (\<lambda>x. x \<noteq> dq) r"
      using Cons.prems r re_match_at_literal [of lit r] by simp
    have "re_match lit ((c # cs) @ t) = Some (takeWhile (\<lambda>x. x \<noteq> dq) (r @ t))"
      using r re_match_at_literal [of lit "r @ t"] by simp
    moreover have "\<exists>w. takeWhile (\<lambda>x. x \<noteq> dq) (r @ t) = takeWhile (\<lambda>x. x \<noteq> dq) r @ w"
      by (induction r) auto
    ultimately show ?thesis using v by auto
  next
    case False
    then have m: "re_match lit cs = Some v" using Cons.prems by simp
    then have len: "length lit \<le> length cs" by (rule re_match_length)
    have "\<not> prefix lit ((c # cs) @ t)"
    proof
      assume "prefix lit ((c # cs) @ t)"
      then have "prefix lit (c # cs)"
        using len prefix_length_prefix [of lit "(c # cs) @ t" "c # cs"] by simp
      with False show False by simp
    qed
    then have "re_match lit ((c # cs) @ t) = re_match lit (cs @ t)" by simp
    with Cons.IH [OF m] show ?thesis by simp
  qed
qed

lemma re_match_None_shorter:
  "re_match lit (s @ t) = None \<Longrightarrow> re_match lit s = None"
  using re_match_append [of lit s _ t] by (cases "re_match lit s") auto


lemma re_match_skip_prefix:
  "\<forall>i<length pre. \<not> prefix lit (drop i (pre @ r)) \<Longrightarrow>
     re_match lit (pre @ r) = re_match lit r"
proof (induction pre)
  case Nil
  then show ?case by simp
next
  case (Cons c pre)
  have "\<not> prefix lit (c # pre @ r)"
    using Cons.prems by (auto dest: spec [of _ 0])
  moreover have "\<forall>i<length pre. \<not> prefix lit (drop i (pre @ r))"
    using Cons.prems by (auto dest: spec [of _ "Suc _"])
  ultimately show ?case using Cons.IH by simp
qed

lemma takeWhile_run:
  "dq \<notin> set v \<Longrightarrow> rest = [] \<or> hd rest = dq \<Longrightarrow>
     takeWhile (\<lambda>x. x \<noteq> dq) (v @ rest) = v"
  by (cases rest) (auto simp: takeWhile_no_dq takeWhile_upto_dq)

lemma re_match_decompose:
  "re_match lit buf = Some v \<Longrightarrow>
     \<exists>pre rest. buf = pre @ lit @ v @ rest
        \<and> (\<forall>i<length pre. \<not> prefix lit (drop i buf))
        \<and> dq \<notin> set v \<and> (rest = [] \<or> hd rest = dq)"
proof (induction buf)
  case Nil
  then show ?case by (auto split: if_splits)
next
  case (Cons c cs)
  show ?case
  proof (cases "prefix lit (c # cs)")
    case True
    then obtain r where r: "c # cs = lit @ r" by (auto simp: prefix_def)
    have v: "v = takeWhile (\<lambda>x. x \<noteq> dq) r"
      using Cons.prems r re_match_at_literal [of lit r] by simp
    let ?rest = "dropWhile (\<lambda>x. x \<noteq> dq) r"
    have "c # cs = [] @ lit @ v @ ?rest" using r v by simp
    moreover have "dq \<notin> set v" using v by (auto dest: set_takeWhileD)
    moreover have "?rest = [] \<or> hd ?rest = dq"
      using hd_dropWhile [of "\<lambda>x. x \<noteq> dq" r] by auto
    ultimately show ?thesis by (metis list.size(3) not_less_zero)
  next
    case False
    then have "re_match lit cs = Some v" using Cons.prems by simp
    from Cons.IH [OF this] obtain pre rest where
      d: "cs = pre @ lit @ v @ rest" "\<forall>i<length pre. \<not> prefix lit (drop i cs)"
         "dq \<notin> set v" "rest = [] \<or> hd rest = dq" by blast
    have "\<forall>i<length (c # pre). \<not> prefix lit (drop i (c # cs))"
    proof (intro allI impI)
      fix i assume "i < length (c # pre)"
      then show "\<not> prefix lit (drop i (c # cs))"
        using False d(2) by (cases i) auto
    qed
    moreover have "c # cs = (c # pre) @ lit @ v @ rest" using d(1) by simp
    ultimately show ?thesis using d(3,4) by blast
  qed
qed

lemma re_match_compose:
  assumes "\<forall>i<length pre. \<not> prefix lit (drop i (pre @ lit @ v @ rest))"
    and "dq \<notin> set v" and "rest = [] \<or> hd rest = dq"
  shows "re_match lit (pre @ lit @ v @ rest) = Some v"
proof -
  have "re_match lit (pre @ lit @ v @ rest) = re_match lit (lit @ v @ rest)"
    using assms(1) by (rule re_match_skip_prefix)
  also have "\<dots> = Some (takeWhile (\<lambda>x. x \<noteq> dq) (v @ rest))"
    by (rule re_match_at_literal)
  finally show ?thesis using assms(2,3) by (simp add: takeWhile_run)
qed

lemma payload_developer:
  assumes "dq \<notin> set D"
  shows "re_match developer_re (payload D M) = Some D"
proof -
  let ?r = "D @ [dq] @ '','' @ marketing_re @ M @ [dq] @ ''}''"
  have "re_match developer_re (payload D M) = re_match developer_re (developer_re @ ?r)"
    by (simp add: payload_def developer_re_def dq_def)
  also have "\<dots> = Some (takeWhile (\<lambda>x. x \<noteq> dq) ?r)"
    by (rule re_match_at_literal)
  also have "takeWhile (\<lambda>x. x \<noteq> dq) ?r = D"
    using takeWhile_upto_dq [OF assms] by simp
  finally show ?thesis .
qed

lemma dropWhile_upto_dq:
  "dq \<notin> set v \<Longrightarrow> dropWhile (\<lambda>x. x \<noteq> dq) (v @ dq # t) = dq # t"
  by (induction v) auto

lemma marketing_not_at_value:
  assumes "dq \<notin> set D"
  shows "\<not> prefix marketing_re (dq # D @ dq # CHR '','' # r)"
proof
  assume "prefix marketing_re (dq # D @ dq # CHR '','' # r)"
  then obtain w where
    "D @ dq # CHR '','' # r = ''marketing_notes'' @ dq # CHR '':'' # dq # w"
    by (auto simp: marketing_re_def prefix_def)
  then have e: "D @ dq # (CHR '','' # r) = ''marketing_notes'' @ dq # (CHR '':'' # dq # w)"
    by simp
  have n: "dq \<notin> set ''marketing_notes''" by (simp add: dq_def)
  have "dropWhile (\<lambda>x. x \<noteq> dq) (D @ dq # (CHR '','' # r))
      = dropWhile (\<lambda>x. x \<noteq> dq) (''marketing_notes'' @ dq # (CHR '':'' # dq # w))"
    using e by (rule arg_cong)
  then have "dq # (CHR '','' # r) = dq # (CHR '':'' # dq # w)"
    unfolding dropWhile_upto_dq [OF assms] dropWhile_upto_dq [OF n] .
  then show False by simp
qed

lemma marketing_not_here:
  "\<not> prefix marketing_re (CHR ''{'' # r)"
  "\<not> prefix marketing_re (dq # CHR ''d'' # r)"
  "\<not> prefix marketing_re (dq # CHR '':'' # r)"
  "\<not> prefix marketing_re (CHR '':'' # r)"
  "\<not> prefix marketing_re (dq # CHR '','' # r)"
  "\<not> prefix marketing_re (CHR '','' # r)"
  by (simp_all add: marketing_re_def dq_def)

lemma payload_marketing:
  assumes "dq \<notin> set D" and "dq \<notin> set M"
  shows "re_match marketing_re (payload D M) = Some M"
proof -
  define t where "t = marketing_re @ M @ [dq] @ ''}''"
  define l where "l = tl marketing_re"
  have lit: "marketing_re = dq # l" by (simp add: marketing_re_def l_def)
  have n: "dq \<notin> set ''eveloper_notes''" by (simp add: dq_def)
  have "payload D M
      = CHR ''{'' # dq # CHR ''d'' # ''eveloper_notes'' @ dq # CHR '':'' # dq # D @ dq # CHR '','' # t"
    by (simp add: payload_def developer_re_def t_def)
  then have "re_match marketing_re (payload D M)
      = re_match marketing_re (CHR ''d'' # ''eveloper_notes'' @ dq # CHR '':'' # dq # D @ dq # CHR '','' # t)"
    by (simp only: re_match.simps marketing_not_here if_False)
  also have "\<dots> = re_match marketing_re (''eveloper_notes'' @ dq # CHR '':'' # dq # D @ dq # CHR '','' # t)"
    by (simp add: lit dq_def)
  also have "\<dots> = re_match marketing_re (dq # CHR '':'' # dq # D @ dq # CHR '','' # t)"
    unfolding lit by (rule re_match_skip_run [OF n])
  also have "\<dots> = re_match marketing_re (dq # D @ dq # CHR '','' # t)"
    by (simp only: re_match.simps marketing_not_here if_False)
  also have "\<dots> = re_match marketing_re (D @ dq # CHR '','' # t)"
    using marketing_not_at_value [OF assms(1)] by (simp only: re_match.simps if_False)
  also have "\<dots> = re_match marketing_re (dq # CHR '','' # t)"
    unfolding lit by (rule re_match_skip_run [OF assms(1)])
  also have "\<dots> = re_match marketing_re t"
    by (simp only: re_match.simps marketing_not_here if_False)
  also have "\<dots> = Some (takeWhile (\<lambda>x. x \<noteq> dq) (M @ [dq] @ ''}''))"
    unfolding t_def by (rule re_match_at_literal)
  also have "takeWhile (\<lambda>x. x \<noteq> dq) (M @ [dq] @ ''}'') = M"
    using takeWhile_upto_dq [OF assms(2)] by simp
  finally show ?thesis .
qed



section \<open>The capture of a pattern: claim C4\<close>

text \<open>
  C4. The pattern of a field matches a buffer with capture \<open>v\<close> exactly when \<open>v\<close> is the
  run of characters between the first occurrence of the field's literal (which ends with
  the opening quote of the value) and the first double quote after it, or the end of the
  buffer. Nothing is decoded: before an escaped quote the capture stops at the quote
  character and keeps the backslash as a character of the value.
\<close>

theorem capture_is_raw_run:
  "(re_match lit buf = Some v \<longleftrightarrow>
      (\<exists>pre rest. buf = pre @ lit @ v @ rest
         \<and> (\<forall>i<length pre. \<not> prefix lit (drop i buf))
         \<and> dq \<notin> set v \<and> (rest = [] \<or> hd rest = dq)))
   \<and> (dq \<notin> set u \<longrightarrow>
        re_match lit (lit @ u @ [bslash, dq] @ w) = Some (u @ [bslash]))"
proof (intro conjI iffI impI)
  assume "re_match lit buf = Some v"
  then show "\<exists>pre rest. buf = pre @ lit @ v @ rest
         \<and> (\<forall>i<length pre. \<not> prefix lit (drop i buf))
         \<and> dq \<notin> set v \<and> (rest = [] \<or> hd rest = dq)"
    by (rule re_match_decompose)
next
  assume "\<exists>pre rest. buf = pre @ lit @ v @ rest
         \<and> (\<forall>i<length pre. \<not> prefix lit (drop i buf))
         \<and> dq \<notin> set v \<and> (rest = [] \<or> hd rest = dq)"
  then show "re_match lit buf = Some v"
    using re_match_compose by blast
next
  assume u: "dq \<notin> set u"
  have "bslash \<noteq> dq" by (simp add: bslash_def dq_def)
  then have "dq \<notin> set (u @ [bslash])" using u by auto
  then have "takeWhile (\<lambda>x. x \<noteq> dq) ((u @ [bslash]) @ dq # w) = u @ [bslash]"
    by (rule takeWhile_upto_dq)
  then show "re_match lit (lit @ u @ [bslash, dq] @ w) = Some (u @ [bslash])"
    using re_match_at_literal [of lit "u @ [bslash, dq] @ w"] by simp
qed

theorem capture_is_raw_run_witness:
  "dq \<notin> set ''say '' \<and>
   re_match developer_re (developer_re @ ''say '' @ [bslash, dq] @ ''hi'' @ [bslash, dq, dq] @ ''}'')
     = Some (''say '' @ [bslash])"
  using capture_is_raw_run [of developer_re _ _ "''say ''" "''hi'' @ [bslash, dq, dq] @ ''}''"]
  by (simp add: dq_def)

section \<open>Properties of the table\<close>


lemma apply_changes_id [simp]:
  "id' (apply_changes c e) = id' e"
  by (simp add: apply_changes_def)

lemma table_update_missing:
  "key \<notin> id' ` set t \<Longrightarrow> table_update key c t = t"
  unfolding table_update_def by (rule map_idI) auto

lemma table_get_update:
  "table_get k (table_update key c t) =
     (if k = key then map_option (apply_changes c) (table_get key t) else table_get k t)"
proof (cases "k = key")
  case True
  have "table_get key (table_update key c t) = map_option (apply_changes c) (table_get key t)"
    by (induction t) (simp_all add: table_get_def table_update_def)
  with True show ?thesis by simp
next
  case False
  then have "table_get k (table_update key c t) = table_get k t"
    by (induction t) (simp_all add: table_get_def table_update_def)
  with False show ?thesis by simp
qed

lemma table_update_others:
  "filter (\<lambda>x. id' x \<noteq> key) (table_update key c t) = filter (\<lambda>x. id' x \<noteq> key) t"
  by (induction t) (simp_all add: table_update_def)

lemma table_update_ids:
  "map id' (table_update key c t) = map id' t"
  by (simp add: table_update_def comp_def if_distrib cong: if_cong)

lemma table_update_length:
  "length (table_update key c t) = length t"
  by (simp add: table_update_def)

lemma set_table_put:
  "set (table_put e t) = insert e {x \<in> set t. id' x \<noteq> id' e}"
  by (auto simp: table_put_def image_iff)

lemma table_put_ids:
  "id' e \<in> id' ` set t \<Longrightarrow> map id' (table_put e t) = map id' t"
  by (simp add: table_put_def comp_def if_distrib cong: if_cong)

lemma distinct_table_put:
  "distinct (map id' t) \<Longrightarrow> distinct (map id' (table_put e t))"
proof (cases "id' e \<in> id' ` set t")
  case True
  assume "distinct (map id' t)"
  then show ?thesis using table_put_ids [OF True] by simp
next
  case False
  assume "distinct (map id' t)"
  with False show ?thesis by (simp add: table_put_def)
qed

lemma set_table_bulkPut:
  "distinct (map id' es) \<Longrightarrow>
     set (table_bulkPut es t) = set es \<union> {x \<in> set t. id' x \<notin> id' ` set es}"
proof (induction es arbitrary: t)
  case Nil
  then show ?case by (simp add: table_bulkPut_def)
next
  case (Cons e es)
  have d: "distinct (map id' es)" and n: "id' e \<notin> id' ` set es"
    using Cons.prems by simp_all
  have "set (table_bulkPut (e # es) t) = set (table_bulkPut es (table_put e t))"
    by (simp add: table_bulkPut_def)
  also have "\<dots> = set es \<union> {x \<in> set (table_put e t). id' x \<notin> id' ` set es}"
    by (rule Cons.IH [OF d])
  also have "\<dots> = set (e # es) \<union> {x \<in> set t. id' x \<notin> id' ` set (e # es)}"
    using n by (auto simp: set_table_put)
  finally show ?case .
qed

lemma distinct_table_bulkPut:
  "distinct (map id' t) \<Longrightarrow> distinct (map id' (table_bulkPut es t))"
  by (induction es arbitrary: t) (simp_all add: table_bulkPut_def distinct_table_put)

lemma map_snd_enumerate_fun:
  "map (\<lambda>p. g (snd p)) (enumerate n ds) = map g ds"
  by (induction ds arbitrary: n) simp_all

lemma entities_of_items:
  "map DiffItem.truncate (entities_of ds clock) = ds"
proof -
  have r: "\<And>d :: DiffItem.
      \<lparr>id' = id' d, description = description d, diff = diff d, url = url d\<rparr> = d"
    by simp
  have "map DiffItem.truncate (entities_of ds clock) = map (\<lambda>p. (\<lambda>d. d) (snd p)) (enumerate 0 ds)"
    by (simp add: entities_of_def DiffItem.truncate_def split_def comp_def r)
  also have "\<dots> = map (\<lambda>d. d) ds" by (rule map_snd_enumerate_fun)
  finally show ?thesis by simp
qed

lemma entities_of_fresh:
  "e \<in> set (entities_of ds clock) \<Longrightarrow>
     summaryDeveloper e = None \<and> summaryMarketing e = None \<and> summaryUpdatedAt e = None"
  by (auto simp: entities_of_def)

lemma entities_of_ids:
  "map id' (entities_of ds clock) = map id' ds"
proof -
  have "map id' (entities_of ds clock) = map (\<lambda>p. id' (snd p)) (enumerate 0 ds)"
    by (simp add: entities_of_def split_def comp_def)
  also have "\<dots> = map id' ds" by (rule map_snd_enumerate_fun)
  finally show ?thesis .
qed

lemma fetchDiffs_persists:
  "db_diffs (fetchDiffs page (ListingPage data) clock Resolves h) =
     table_bulkPut (entities_of (ApiResponse.diffs data) clock) (db_diffs h)"
  by (simp add: fetchDiffs_def Let_def)

lemma startup_diffs:
  "db_diffs h \<noteq> [] \<Longrightarrow>
     diffs (startup Resolves h) = map DiffItem.truncate (table_toArray (db_diffs h))"
  by (simp add: startup_def Let_def table_toArray_def)

section \<open>The cache: claim C7\<close>

text \<open>
  C7. After an upsert of records with distinct ids, the table holds exactly the upserted
  records, as given, and the old records whose id is not among them: an old record with
  an upserted id is gone as a whole, nothing of it is merged into the new one. The ids
  of the table stay distinct. \<^verbatim>\<open>fetchDiffs\<close> upserts, for each item of the page, an entity
  with the four fields of the item, the fetch time and no summary field, so the notes
  cached for an id of the page are dropped; the startup effect shows the records the
  table returns.
\<close>

theorem upsert_replaces_whole_records:
  "(distinct (map id' es) \<longrightarrow>
      set (table_toArray (table_bulkPut es t)) = set es \<union> {x \<in> set t. id' x \<notin> id' ` set es})
   \<and> (distinct (map id' t) \<longrightarrow> distinct (map id' (table_toArray (table_bulkPut es t))))
   \<and> db_diffs (fetchDiffs page (ListingPage data) clock Resolves h)
       = table_bulkPut (entities_of (ApiResponse.diffs data) clock) (db_diffs h)
   \<and> map DiffItem.truncate (entities_of ds clock) = ds
   \<and> (\<forall>e \<in> set (entities_of ds clock).
         summaryDeveloper e = None \<and> summaryMarketing e = None \<and> summaryUpdatedAt e = None)
   \<and> (db_diffs h \<noteq> [] \<longrightarrow>
         diffs (startup Resolves h) = map DiffItem.truncate (table_toArray (db_diffs h)))"
  by (simp add: table_toArray_def set_table_bulkPut distinct_table_bulkPut fetchDiffs_persists
      entities_of_items entities_of_fresh startup_diffs [unfolded table_toArray_def])

theorem upsert_replaces_whole_records_witness:
  "distinct (map id' (entities_of [item7] (\<lambda>i. 70)))
   \<and> distinct (map id' [entity7])
   \<and> db_diffs home_cached \<noteq> []
   \<and> set (table_toArray (table_bulkPut (entities_of [item7] (\<lambda>i. 70)) [entity7]))
       = set (entities_of [item7] (\<lambda>i. 70))
           \<union> {x \<in> set [entity7]. id' x \<notin> id' ` set (entities_of [item7] (\<lambda>i. 70))}
   \<and> table_toArray (db_diffs (fetchDiffs 1 (ListingPage page_one) (\<lambda>i. 70) Resolves home_cached))
       = [entity7\<lparr>fetchedAt := 70, summaryDeveloper := None, summaryMarketing := None,
                  summaryUpdatedAt := None\<rparr>]"
proof -
  have a: "distinct (map id' (entities_of [item7] (\<lambda>i. 70)))"
    by (simp add: entities_of_def)
  have b: "distinct (map id' [entity7])" by simp
  have c: "db_diffs home_cached \<noteq> []" by (simp add: home_cached_def home_init_def)
  have d: "table_toArray (db_diffs (fetchDiffs 1 (ListingPage page_one) (\<lambda>i. 70) Resolves home_cached))
       = [entity7\<lparr>fetchedAt := 70, summaryDeveloper := None, summaryMarketing := None,
                  summaryUpdatedAt := None\<rparr>]"
    by (simp add: fetchDiffs_def Let_def page_one_def home_cached_def home_init_def
        entities_of_def table_bulkPut_def table_put_def table_toArray_def item7_def entity7_def)
  show ?thesis
    using a b c d upsert_replaces_whole_records
      [where es = "entities_of [item7] (\<lambda>i. 70)" and t = "[entity7]" and page = 1
         and data = page_one and clock = "\<lambda>i. 70" and h = home_cached and ds = "[item7]"]
    by blast
qed

section \<open>Properties of the loop\<close>


lemma capture_append:
  "prefix (capture lit s) (capture lit (s @ t))"
proof (cases "re_match lit s")
  case None
  then show ?thesis by (simp add: capture_def)
next
  case (Some v)
  from re_match_append [OF this, of t] obtain w where
    "re_match lit (s @ t) = Some (v @ w)" by blast
  with Some show ?thesis by (simp add: capture_def)
qed

lemma consistent_init: "consistent extraction_init"
  by (simp add: consistent_def extraction_init_def capture_def developer_re_def marketing_re_def)

lemma extract_step_accumulated:
  "accumulated (extract_step x c) = accumulated x @ c"
  by (simp add: extract_step_def Let_def)

lemma extract_step_consistent:
  assumes "consistent x"
  shows "consistent (extract_step x c)"
proof -
  have "\<And>lit old. old = capture lit (accumulated x) \<Longrightarrow>
          (case re_match lit (accumulated x @ c) of Some v \<Rightarrow> v | None \<Rightarrow> old)
            = capture lit (accumulated x @ c)"
  proof -
    fix lit old assume o: "old = capture lit (accumulated x)"
    show "(case re_match lit (accumulated x @ c) of Some v \<Rightarrow> v | None \<Rightarrow> old)
            = capture lit (accumulated x @ c)"
    proof (cases "re_match lit (accumulated x @ c)")
      case None
      then have "re_match lit (accumulated x) = None" by (rule re_match_None_shorter)
      with None o show ?thesis by (simp add: capture_def)
    next
      case (Some v)
      then show ?thesis by (simp add: capture_def)
    qed
  qed
  with assms show ?thesis
    by (simp add: consistent_def extract_step_def Let_def)
qed

lemma extract_step_grows:
  assumes "consistent x"
  shows "prefix (finalDeveloper x) (finalDeveloper (extract_step x c))"
    and "prefix (finalMarketing x) (finalMarketing (extract_step x c))"
proof -
  have c: "consistent (extract_step x c)" using assms by (rule extract_step_consistent)
  show "prefix (finalDeveloper x) (finalDeveloper (extract_step x c))"
    using assms c capture_append [of developer_re "accumulated x" c]
    by (simp add: consistent_def extract_step_accumulated)
  show "prefix (finalMarketing x) (finalMarketing (extract_step x c))"
    using assms c capture_append [of marketing_re "accumulated x" c]
    by (simp add: consistent_def extract_step_accumulated)
qed

lemma on_event_locals:
  "locals (on_event key g (Read c)) = extract_step (locals g) c"
  "locals (on_event key g (Run t saved)) = locals g"
  by (simp_all add: on_event_def split: list.split)

lemma read_loop_Nil:
  "read_loop key [] g = g"
  by (simp add: read_loop_def)

lemma read_loop_Cons:
  "read_loop key (e # es) g = read_loop key es (on_event key g e)"
  by (simp add: read_loop_def)

lemma read_loop_snoc:
  "read_loop key (es @ [e]) g = on_event key (read_loop key es g) e"
  by (simp add: read_loop_def)

lemma read_loop_locals:
  "locals (read_loop key es g) = fold (\<lambda>c x. extract_step x c) (chunks es) (locals g)"
  by (induction es arbitrary: g rule: chunks.induct)
     (simp_all add: read_loop_Nil read_loop_Cons on_event_locals)

lemma fold_extract_accumulated:
  "accumulated (fold (\<lambda>c x. extract_step x c) cs x) = accumulated x @ concat cs"
  by (induction cs arbitrary: x) (simp_all add: extract_step_accumulated)

lemma fold_extract_consistent:
  "consistent x \<Longrightarrow> consistent (fold (\<lambda>c x. extract_step x c) cs x)"
  by (induction cs arbitrary: x) (simp_all add: extract_step_consistent)

lemma read_loop_accumulated:
  "accumulated (locals (read_loop key es g)) = accumulated (locals g) @ concat (chunks es)"
  by (simp add: read_loop_locals fold_extract_accumulated)

lemma read_loop_consistent:
  "consistent (locals g) \<Longrightarrow> consistent (locals (read_loop key es g))"
  by (simp add: read_loop_locals fold_extract_consistent)

lemma begin_generation_locals:
  "locals (begin_generation key h) = extraction_init"
  "queue (begin_generation key h) = [Reset]"
  by (simp_all add: begin_generation_def)

lemma on_event_grows:
  assumes "consistent (locals g)"
  shows "prefix (finalDeveloper (locals g)) (finalDeveloper (locals (on_event key g e)))"
    and "prefix (finalMarketing (locals g)) (finalMarketing (locals (on_event key g e)))"
  using assms extract_step_grows [OF assms]
  by (cases e; simp add: on_event_locals)+

section \<open>The extractor: claims C1 and C3\<close>

text \<open>
  C1. Let \<open>D\<close> and \<open>M\<close> contain no double quote, and let the chunks read add up to the
  complete payload for \<open>D\<close> and \<open>M\<close>, cut anywhere. Then the loop ends with the best
  values \<open>D\<close> for the developer note and \<open>M\<close> for the marketing note, whatever the item
  and the state of the page are, whenever the queued updaters run and however their
  writes end.
\<close>

theorem complete_payload_extracted:
  assumes "dq \<notin> set D" and "dq \<notin> set M"
    and "concat (chunks es) = payload D M"
  shows "finalDeveloper (locals (read_loop key es (begin_generation key h))) = D
       \<and> finalMarketing (locals (read_loop key es (begin_generation key h))) = M"
proof -
  let ?x = "locals (read_loop key es (begin_generation key h))"
  have "consistent ?x"
    by (rule read_loop_consistent) (simp add: begin_generation_locals consistent_init)
  moreover have "accumulated ?x = payload D M"
    using assms(3) by (simp add: read_loop_accumulated begin_generation_locals extraction_init_def)
  ultimately show ?thesis
    using payload_developer [OF assms(1), of M] payload_marketing [OF assms(1,2)]
    by (simp add: consistent_def capture_def)
qed

theorem complete_payload_extracted_witness:
  "dq \<notin> set ''Fix bug'' \<and> dq \<notin> set ''See fewer crashes!''
   \<and> concat (chunks four_reads) = payload ''Fix bug'' ''See fewer crashes!''
   \<and> finalDeveloper (locals (read_loop ''7'' four_reads (begin_generation ''7'' home_init)))
       = ''Fix bug''
   \<and> finalMarketing (locals (read_loop ''7'' four_reads (begin_generation ''7'' home_init)))
       = ''See fewer crashes!''"
proof -
  have a: "dq \<notin> set ''Fix bug''" and b: "dq \<notin> set ''See fewer crashes!''"
    by (simp_all add: dq_def)
  have c: "concat (chunks four_reads) = payload ''Fix bug'' ''See fewer crashes!''"
    by (simp add: four_reads_def payload_def developer_re_def marketing_re_def)
  show ?thesis
    using a b c complete_payload_extracted [OF a b c, of "''7''" home_init] by simp
qed

text \<open>
  C3. After any events from the start of a request, one more event (a chunk that is
  read, or an updater that runs) does not regress the best value of either field: when
  the grown buffer has no match for a field the previous value is kept, the new value
  always extends the previous one, and a value that is not empty does not become empty.
\<close>

theorem best_value_never_regresses:
  fixes key :: string and es :: "event list" and e :: event and h :: Home
  defines "s \<equiv> read_loop key es (begin_generation key h)"
  defines "s' \<equiv> on_event key s e"
  shows "(re_match developer_re (accumulated (locals s')) = None
            \<longrightarrow> finalDeveloper (locals s') = finalDeveloper (locals s))
       \<and> (re_match marketing_re (accumulated (locals s')) = None
            \<longrightarrow> finalMarketing (locals s') = finalMarketing (locals s))
       \<and> prefix (finalDeveloper (locals s)) (finalDeveloper (locals s'))
       \<and> prefix (finalMarketing (locals s)) (finalMarketing (locals s'))
       \<and> (finalDeveloper (locals s) \<noteq> [] \<longrightarrow> finalDeveloper (locals s') \<noteq> [])
       \<and> (finalMarketing (locals s) \<noteq> [] \<longrightarrow> finalMarketing (locals s') \<noteq> [])"
proof -
  have c: "consistent (locals s)"
    unfolding s_def
    by (rule read_loop_consistent) (simp add: begin_generation_locals consistent_init)
  have g: "prefix (finalDeveloper (locals s)) (finalDeveloper (locals s'))"
          "prefix (finalMarketing (locals s)) (finalMarketing (locals s'))"
    unfolding s'_def using c by (rule on_event_grows)+
  have k: "re_match developer_re (accumulated (locals s')) = None
             \<longrightarrow> finalDeveloper (locals s') = finalDeveloper (locals s)"
          "re_match marketing_re (accumulated (locals s')) = None
             \<longrightarrow> finalMarketing (locals s') = finalMarketing (locals s)"
    unfolding s'_def
    by (cases e; simp add: on_event_locals extract_step_def Let_def)+
  from g k show ?thesis by auto
qed

theorem best_value_never_regresses_witness:
  "re_match marketing_re (accumulated (locals (on_event ''7''
       (read_loop ''7'' (take 3 four_reads) (begin_generation ''7'' home_init))
       (four_reads ! 3)))) = None
   \<and> finalDeveloper (locals (read_loop ''7'' (take 3 four_reads) (begin_generation ''7'' home_init)))
       = []
   \<and> finalDeveloper (locals (on_event ''7''
       (read_loop ''7'' (take 3 four_reads) (begin_generation ''7'' home_init))
       (four_reads ! 3))) = ''Fix bug''
   \<and> finalMarketing (locals (on_event ''7''
       (read_loop ''7'' (take 3 four_reads) (begin_generation ''7'' home_init))
       (four_reads ! 3))) = []"
proof -
  have e: "four_reads ! 3
      = Read (''notes'' @ [dq] @ '':'' @ [dq] @ ''Fix bug'' @ [dq] @ '','' @ [dq])"
    by (simp add: four_reads_def)
  have x: "locals (read_loop ''7'' (take 3 four_reads) (begin_generation ''7'' home_init))
      = \<lparr>accumulated = ''{'' @ [dq] @ ''developer_'', finalDeveloper = [], finalMarketing = []\<rparr>"
    by (simp add: read_loop_locals begin_generation_locals four_reads_def extract_step_def
        extraction_init_def developer_re_def marketing_re_def dq_def Let_def)
  show ?thesis
    using best_value_never_regresses
      [where key = "''7''" and es = "take 3 four_reads" and e = "four_reads ! 3"
         and h = home_init]
    unfolding e on_event_locals x
    by (simp add: extract_step_def developer_re_def marketing_re_def dq_def Let_def)
qed

section \<open>Properties of one generation\<close>


lemma run_updater_fields:
  "summaryErrors (run_updater key x u t saved h) = summaryErrors h"
  "loadingSummaries (run_updater key x u t saved h) = loadingSummaries h"
  by (simp_all add: run_updater_def Let_def split: updater.split db_outcome.split)

lemma run_updater_console:
  "console (run_updater key x u t Resolves h) = console h"
  by (simp add: run_updater_def Let_def split: updater.split)

lemma run_updater_db:
  "db_diffs (run_updater key x Reset t saved h) = db_diffs h"
  "db_diffs (run_updater key x Partial t (RejectsWith e) h) = db_diffs h"
  "db_diffs (run_updater key x Partial t Resolves h) =
     table_update key
       (summary_changes
          (or_else (finalDeveloper x) (or_undefined (map_option developer (generatedSummaries h key)) []))
          (or_else (finalMarketing x) (or_undefined (map_option marketing (generatedSummaries h key)) []))
          t)
       (db_diffs h)"
  by (simp_all add: run_updater_def Let_def)

lemma run_updater_summaries:
  "generatedSummaries (run_updater key x Reset t saved h)
     = (generatedSummaries h)(key \<mapsto> \<lparr>developer = [], marketing = []\<rparr>)"
  "generatedSummaries (run_updater key x Partial t saved h)
     = (generatedSummaries h)(key \<mapsto>
         \<lparr>developer = or_else (finalDeveloper x)
                         (or_undefined (map_option developer (generatedSummaries h key)) []),
          marketing = or_else (finalMarketing x)
                         (or_undefined (map_option marketing (generatedSummaries h key)) [])\<rparr>)"
  by (simp_all add: run_updater_def Let_def split: db_outcome.split)


text \<open>The fields a generation never writes.\<close>

lemma summary_changes_frame:
  "map (\<lambda>e. (id' e, description e, diff e, url e, fetchedAt e))
       (table_update key (summary_changes a b n) t)
   = map (\<lambda>e. (id' e, description e, diff e, url e, fetchedAt e)) t"
  by (induction t)
     (simp_all add: table_update_def summary_changes_def no_changes_def apply_changes_def)

lemma run_updater_frame:
  "map (\<lambda>e. (id' e, description e, diff e, url e, fetchedAt e))
       (db_diffs (run_updater key x u t saved h))
   = map (\<lambda>e. (id' e, description e, diff e, url e, fetchedAt e)) (db_diffs h)"
proof (cases u)
  case Reset
  then show ?thesis by (simp add: run_updater_db)
next
  case Partial
  then show ?thesis
    by (cases saved) (simp_all add: run_updater_db summary_changes_frame)
qed

lemma on_event_frame:
  "map (\<lambda>e. (id' e, description e, diff e, url e, fetchedAt e)) (db_diffs (home (on_event key g ev)))
   = map (\<lambda>e. (id' e, description e, diff e, url e, fetchedAt e)) (db_diffs (home g))"
  by (cases ev) (simp_all add: on_event_def run_updater_frame split: list.split)

lemma read_loop_frame:
  "map (\<lambda>e. (id' e, description e, diff e, url e, fetchedAt e)) (db_diffs (home (read_loop key es g)))
   = map (\<lambda>e. (id' e, description e, diff e, url e, fetchedAt e)) (db_diffs (home g))"
  by (induction es rule: rev_induct) (simp_all add: read_loop_Nil read_loop_snoc on_event_frame)

lemma settle_frame:
  "map (\<lambda>e. (id' e, description e, diff e, url e, fetchedAt e)) (db_diffs (settle key x later i q h))
   = map (\<lambda>e. (id' e, description e, diff e, url e, fetchedAt e)) (db_diffs h)"
  by (induction q arbitrary: i h) (simp_all add: run_updater_frame)

lemma stream_ended_fields:
  "db_diffs (stream_ended key e h) = db_diffs h"
  "generatedSummaries (stream_ended key e h) = generatedSummaries h"
  "loadingSummaries (stream_ended key e h) = loadingSummaries h"
  by (simp_all add: stream_ended_def Let_def split: stream_end.split)

lemma stream_ended_errors:
  "summaryErrors (stream_ended key StreamDone h) = summaryErrors h"
  "summaryErrors (stream_ended key (ReadThrows m) h) key
     = Some (or_else m ''Error while reading AI stream.'')"
  "console (stream_ended key StreamDone h) = console h"
  by (simp_all add: stream_ended_def Let_def)

lemma final_store_fields:
  "generatedSummaries (final_store key x t stored h) = generatedSummaries h"
  "summaryErrors (final_store key x t stored h) = summaryErrors h"
  "loadingSummaries (final_store key x t stored h) = loadingSummaries h"
  "console (final_store key x t Resolves h) = console h"
  by (simp_all add: final_store_def split: db_outcome.split)

lemma final_store_db:
  "db_diffs (final_store key x t Resolves h) =
     table_update key (summary_changes (finalDeveloper x) (finalMarketing x) t) (db_diffs h)"
  "db_diffs (final_store key x t (RejectsWith e) h) = db_diffs h"
  by (simp_all add: final_store_def)

lemma final_store_frame:
  "map (\<lambda>e. (id' e, description e, diff e, url e, fetchedAt e)) (db_diffs (final_store key x t stored h))
   = map (\<lambda>e. (id' e, description e, diff e, url e, fetchedAt e)) (db_diffs h)"
  by (cases stored) (simp_all add: final_store_db summary_changes_frame)

lemma begin_generation_home:
  "db_diffs (home (begin_generation key h)) = db_diffs h"
  "console (home (begin_generation key h)) = console h"
  "generatedSummaries (home (begin_generation key h)) = generatedSummaries h"
  "summaryErrors (home (begin_generation key h)) key = Some []"
  "loadingSummaries (home (begin_generation key h)) key = Some True"
  by (simp_all add: begin_generation_def)

lemma returned_streamed:
  "returned d (Response True status errJson (Some bd)) final_now stored h =
     (read_loop (id' d) (events bd) (begin_generation (id' d) h))
     \<lparr>home :=
        (final_store (id' d) (locals (read_loop (id' d) (events bd) (begin_generation (id' d) h)))
           final_now stored
           (stream_ended (id' d) (ending bd)
              (home (read_loop (id' d) (events bd) (begin_generation (id' d) h)))))
        \<lparr>loadingSummaries :=
           (loadingSummaries
              (home (read_loop (id' d) (events bd) (begin_generation (id' d) h))))
           (id' d \<mapsto> False)\<rparr>\<rparr>"
  by (simp add: returned_def Let_def final_store_fields stream_ended_fields)

lemma returned_frame:
  "map (\<lambda>e. (id' e, description e, diff e, url e, fetchedAt e))
       (db_diffs (home (returned d fetched final_now stored h)))
   = map (\<lambda>e. (id' e, description e, diff e, url e, fetchedAt e)) (db_diffs h)"
proof (cases fetched)
  case (FetchThrows abort m)
  then show ?thesis by (simp add: returned_def Let_def begin_generation_home)
next
  case (Response ok status errJson b)
  show ?thesis
  proof (cases "if ok then b else None")
    case None
    then show ?thesis
      unfolding Response returned_def by (simp add: Let_def begin_generation_home)
  next
    case (Some bd)
    then have "ok" "b = Some bd" by (simp_all split: if_splits)
    then show ?thesis
      unfolding Response
      by (simp add: returned_streamed final_store_frame stream_ended_fields read_loop_frame
          begin_generation_home)
  qed
qed

lemma fetchAIGeneratedDiff_frame:
  "map (\<lambda>e. (id' e, description e, diff e, url e, fetchedAt e))
       (db_diffs (fetchAIGeneratedDiff d fetched final_now stored later h))
   = map (\<lambda>e. (id' e, description e, diff e, url e, fetchedAt e)) (db_diffs h)"
  by (simp add: fetchAIGeneratedDiff_def Let_def settle_frame returned_frame)

section \<open>The cache: claim C6\<close>

text \<open>
  C6. An update of a record that is in the table changes the fields that are given and
  no other field of the record, keeps every other record and adds none. So giving only
  the developer note to a record whose marketing note is \<open>y\<close> leaves a record with the new
  developer note and the marketing note \<open>y\<close>. The writes of a generation give the two
  notes and their time only: whatever the request comes back with and whenever the
  queued updaters run, the id, description, diff, url and fetch time of every record
  stay as they were.
\<close>

theorem update_merges_given_fields:
  "(table_get key t = Some e \<longrightarrow>
      table_get key (table_update key c t) = Some (apply_changes c e)
      \<and> id' (apply_changes c e) = id' e
      \<and> description (apply_changes c e) = (case c_description c of Some v \<Rightarrow> v | None \<Rightarrow> description e)
      \<and> diff (apply_changes c e) = (case c_diff c of Some v \<Rightarrow> v | None \<Rightarrow> diff e)
      \<and> url (apply_changes c e) = (case c_url c of Some v \<Rightarrow> v | None \<Rightarrow> url e)
      \<and> fetchedAt (apply_changes c e) = (case c_fetchedAt c of Some v \<Rightarrow> v | None \<Rightarrow> fetchedAt e)
      \<and> summaryDeveloper (apply_changes c e)
          = (case c_summaryDeveloper c of Some v \<Rightarrow> Some v | None \<Rightarrow> summaryDeveloper e)
      \<and> summaryMarketing (apply_changes c e)
          = (case c_summaryMarketing c of Some v \<Rightarrow> Some v | None \<Rightarrow> summaryMarketing e)
      \<and> summaryUpdatedAt (apply_changes c e)
          = (case c_summaryUpdatedAt c of Some v \<Rightarrow> Some v | None \<Rightarrow> summaryUpdatedAt e))
   \<and> filter (\<lambda>x. id' x \<noteq> key) (table_update key c t) = filter (\<lambda>x. id' x \<noteq> key) t
   \<and> length (table_update key c t) = length t
   \<and> (table_get key t = Some e \<and> summaryMarketing e = Some y \<longrightarrow>
        table_get key (table_update key (no_changes\<lparr>c_summaryDeveloper := Some x\<rparr>) t)
          = Some (e\<lparr>summaryDeveloper := Some x\<rparr>)
        \<and> summaryDeveloper (e\<lparr>summaryDeveloper := Some x\<rparr>) = Some x
        \<and> summaryMarketing (e\<lparr>summaryDeveloper := Some x\<rparr>) = Some y)
   \<and> map (\<lambda>e. (id' e, description e, diff e, url e, fetchedAt e))
          (db_diffs (fetchAIGeneratedDiff d fetched final_now stored later h))
      = map (\<lambda>e. (id' e, description e, diff e, url e, fetchedAt e)) (db_diffs h)"
proof (intro conjI impI)
  assume "table_get key t = Some e"
  then show "table_get key (table_update key c t) = Some (apply_changes c e)"
    by (simp add: table_get_update)
next
  assume "table_get key t = Some e \<and> summaryMarketing e = Some y"
  then show "table_get key (table_update key (no_changes\<lparr>c_summaryDeveloper := Some x\<rparr>) t)
          = Some (e\<lparr>summaryDeveloper := Some x\<rparr>)"
    by (simp add: table_get_update apply_changes_def no_changes_def)
next
  assume "table_get key t = Some e \<and> summaryMarketing e = Some y"
  then show "summaryMarketing (e\<lparr>summaryDeveloper := Some x\<rparr>) = Some y" by simp
qed (simp_all add: apply_changes_def table_update_others table_update_length
       fetchAIGeneratedDiff_frame)

theorem update_merges_given_fields_witness:
  "table_get ''7'' [entity7] = Some entity7
   \<and> summaryMarketing entity7 = Some ''Old marketing note''
   \<and> table_get ''7'' (table_update ''7'' (no_changes\<lparr>c_summaryDeveloper := Some ''x''\<rparr>) [entity7])
       = Some (entity7\<lparr>summaryDeveloper := Some ''x''\<rparr>)
   \<and> summaryMarketing (entity7\<lparr>summaryDeveloper := Some ''x''\<rparr>) = Some ''Old marketing note''"
proof -
  have a: "table_get ''7'' [entity7] = Some entity7"
    by (simp add: table_get_def entity7_def)
  have b: "summaryMarketing entity7 = Some ''Old marketing note''"
    by (simp add: entity7_def)
  show ?thesis
    using a b update_merges_given_fields
      [where key = "''7''" and t = "[entity7]" and e = entity7 and y = "''Old marketing note''"
         and x = "''x''" and c = no_changes and d = item7 and fetched = "FetchThrows True []"
         and final_now = 0 and stored = Resolves and later = "\<lambda>i. (0, Resolves)"
         and h = home_init]
    by blast
qed

section \<open>The invariant of a generation\<close>


lemma or_else_grown:
  "prefix a b \<Longrightarrow> or_else b (or_undefined (Some a) []) = b"
  by (cases b) (auto simp: or_else_def or_undefined_def)


lemma tracked_init:
  "tracked key (begin_generation key h)"
  by (simp add: tracked_def begin_generation_def consistent_init)

lemma tracked_read:
  assumes "tracked key g"
  shows "tracked key (on_event key g (Read c))"
proof -
  have c: "consistent (locals g)" using assms by (simp add: tracked_def)
  have r: "Reset \<notin> set (tl (queue g))" using assms by (simp add: tracked_def)
  have q: "queue (on_event key g (Read c)) = queue g @ [Partial]"
    and h: "home (on_event key g (Read c)) = home g"
    and l: "locals (on_event key g (Read c)) = extract_step (locals g) c"
    by (simp_all add: on_event_def)
  have "Reset \<notin> set (tl (queue g @ [Partial]))"
    using r by (cases "queue g") simp_all
  moreover have "(\<exists>q. queue g @ [Partial] = Reset # q) \<or> behind key (on_event key g (Read c))"
  proof (cases "\<exists>q. queue g = Reset # q")
    case True
    then show ?thesis by auto
  next
    case False
    then have "behind key g" using assms by (simp add: tracked_def)
    then obtain a b where ab:
      "generatedSummaries (home g) key = Some \<lparr>developer = a, marketing = b\<rparr>"
      "prefix a (finalDeveloper (locals g))" "prefix b (finalMarketing (locals g))"
      by (auto simp: behind_def)
    have "prefix a (finalDeveloper (extract_step (locals g) c))"
      using ab(2) extract_step_grows(1) [OF c, of c] by (rule prefix_order.trans)
    moreover have "prefix b (finalMarketing (extract_step (locals g) c))"
      using ab(3) extract_step_grows(2) [OF c, of c] by (rule prefix_order.trans)
    ultimately have "behind key (on_event key g (Read c))"
      unfolding behind_def h l using ab(1) by blast
    then show ?thesis by simp
  qed
  moreover have "consistent (extract_step (locals g) c)"
    using c by (rule extract_step_consistent)
  ultimately show ?thesis by (simp add: tracked_def q l)
qed

lemma run_partial_behind:
  assumes "behind key g"
  shows "generatedSummaries (run_updater key (locals g) Partial t saved (home g)) key
           = Some \<lparr>developer = finalDeveloper (locals g), marketing = finalMarketing (locals g)\<rparr>"
    and "db_diffs (run_updater key (locals g) Partial t Resolves (home g))
           = table_update key
               (summary_changes (finalDeveloper (locals g)) (finalMarketing (locals g)) t)
               (db_diffs (home g))"
proof -
  from assms obtain a b where ab:
    "generatedSummaries (home g) key = Some \<lparr>developer = a, marketing = b\<rparr>"
    "prefix a (finalDeveloper (locals g))" "prefix b (finalMarketing (locals g))"
    by (auto simp: behind_def)
  show "generatedSummaries (run_updater key (locals g) Partial t saved (home g)) key
           = Some \<lparr>developer = finalDeveloper (locals g), marketing = finalMarketing (locals g)\<rparr>"
    using ab by (simp add: run_updater_summaries or_else_grown)
  show "db_diffs (run_updater key (locals g) Partial t Resolves (home g))
           = table_update key
               (summary_changes (finalDeveloper (locals g)) (finalMarketing (locals g)) t)
               (db_diffs (home g))"
    using ab by (simp add: run_updater_db or_else_grown)
qed

lemma tracked_run:
  assumes "tracked key g"
  shows "tracked key (on_event key g (Run t saved))"
proof (cases "queue g")
  case Nil
  then show ?thesis using assms by (simp add: on_event_def)
next
  case (Cons u q)
  have c: "consistent (locals g)" using assms by (simp add: tracked_def)
  have r: "Reset \<notin> set q" using assms Cons by (simp add: tracked_def)
  have g': "on_event key g (Run t saved)
      = g\<lparr>queue := q, home := run_updater key (locals g) u t saved (home g)\<rparr>"
    using Cons by (simp add: on_event_def)
  have "behind key (on_event key g (Run t saved))"
  proof (cases u)
    case Reset
    then show ?thesis
      unfolding g' by (simp add: behind_def run_updater_summaries)
  next
    case Partial
    then have "behind key g" using assms Cons by (simp add: tracked_def)
    from run_partial_behind(1) [OF this, of t saved] show ?thesis
      unfolding g' Partial by (simp add: behind_def)
  qed
  moreover have "Reset \<notin> set (tl q)" using r by (cases q) simp_all
  ultimately show ?thesis using c unfolding tracked_def g' by simp
qed

lemma tracked_event:
  "tracked key g \<Longrightarrow> tracked key (on_event key g e)"
  by (cases e) (simp_all add: tracked_read tracked_run)

lemma tracked_loop:
  "tracked key g \<Longrightarrow> tracked key (read_loop key es g)"
  by (induction es rule: rev_induct) (simp_all add: read_loop_Nil read_loop_snoc tracked_event)

lemma tracked_partial_first:
  "tracked key g \<Longrightarrow> queue g = Partial # q \<Longrightarrow> behind key g"
  by (simp add: tracked_def)

lemma on_event_errors:
  "summaryErrors (home (on_event key g e)) = summaryErrors (home g)"
  "loadingSummaries (home (on_event key g e)) = loadingSummaries (home g)"
  by (cases e; simp add: on_event_def run_updater_fields split: list.split)+

lemma read_loop_errors:
  "summaryErrors (home (read_loop key es g)) = summaryErrors (home g)"
  by (induction es rule: rev_induct) (simp_all add: read_loop_Nil read_loop_snoc on_event_errors)

lemma read_loop_loading:
  "loadingSummaries (home (read_loop key es g)) = loadingSummaries (home g)"
  by (induction es rule: rev_induct) (simp_all add: read_loop_Nil read_loop_snoc on_event_errors)

lemma settle_errors:
  "summaryErrors (settle key x later i q h) = summaryErrors h"
  "loadingSummaries (settle key x later i q h) = loadingSummaries h"
  by (induction q arbitrary: i h; simp add: run_updater_fields)+

lemma on_event_console:
  "saves e \<Longrightarrow> console (home (on_event key g e)) = console (home g)"
  by (cases e) (simp_all add: on_event_def saves_def run_updater_console split: list.split)

lemma read_loop_console:
  "\<forall>e \<in> set es. saves e \<Longrightarrow> console (home (read_loop key es g)) = console (home g)"
  by (induction es rule: rev_induct) (simp_all add: read_loop_Nil read_loop_snoc on_event_console)

lemma run_updater_missing:
  "key \<notin> id' ` set (db_diffs h) \<Longrightarrow> db_diffs (run_updater key x u t saved h) = db_diffs h"
  by (cases u; cases saved) (simp_all add: run_updater_db table_update_missing)

lemma on_event_missing:
  "key \<notin> id' ` set (db_diffs (home g)) \<Longrightarrow> db_diffs (home (on_event key g e)) = db_diffs (home g)"
  by (cases e) (simp_all add: on_event_def run_updater_missing split: list.split)

lemma read_loop_missing:
  "key \<notin> id' ` set (db_diffs (home g)) \<Longrightarrow>
     db_diffs (home (read_loop key es g)) = db_diffs (home g)"
  by (induction es rule: rev_induct) (simp_all add: read_loop_Nil read_loop_snoc on_event_missing)

lemma settle_missing:
  "key \<notin> id' ` set (db_diffs h) \<Longrightarrow> db_diffs (settle key x later i q h) = db_diffs h"
  by (induction q arbitrary: i h) (simp_all add: run_updater_missing)

lemma final_store_missing:
  "key \<notin> id' ` set (db_diffs h) \<Longrightarrow> db_diffs (final_store key x t stored h) = db_diffs h"
  by (cases stored) (simp_all add: final_store_db table_update_missing)

lemma returned_missing:
  assumes "id' d \<notin> id' ` set (db_diffs h)"
  shows "db_diffs (home (returned d fetched final_now stored h)) = db_diffs h"
proof (cases fetched)
  case (FetchThrows abort m)
  then show ?thesis by (simp add: returned_def Let_def begin_generation_home)
next
  case (Response ok status errJson b)
  show ?thesis
  proof (cases "if ok then b else None")
    case None
    then show ?thesis
      unfolding Response returned_def by (simp add: Let_def begin_generation_home)
  next
    case (Some bd)
    then have "ok" "b = Some bd" by (simp_all split: if_splits)
    then show ?thesis
      unfolding Response using assms
      by (simp add: returned_streamed final_store_missing stream_ended_fields read_loop_missing
          begin_generation_home)
  qed
qed

lemma fetchAIGeneratedDiff_missing:
  "id' d \<notin> id' ` set (db_diffs h) \<Longrightarrow>
     db_diffs (fetchAIGeneratedDiff d fetched final_now stored later h) = db_diffs h"
  by (simp add: fetchAIGeneratedDiff_def Let_def settle_missing returned_missing)

lemma on_event_independent:
  assumes "shape e = shape e'" and "locals g = locals g'" and "queue g = queue g'"
    and "generatedSummaries (home g) = generatedSummaries (home g')"
  shows "locals (on_event key g e) = locals (on_event key g' e')"
    and "queue (on_event key g e) = queue (on_event key g' e')"
    and "generatedSummaries (home (on_event key g e)) = generatedSummaries (home (on_event key g' e'))"
proof -
  show "locals (on_event key g e) = locals (on_event key g' e')"
    using assms by (cases e; cases e') (simp_all add: shape_def on_event_locals)
  show "queue (on_event key g e) = queue (on_event key g' e')"
    using assms by (cases e; cases e') (simp_all add: shape_def on_event_def split: list.split)
  show "generatedSummaries (home (on_event key g e)) = generatedSummaries (home (on_event key g' e'))"
  proof (cases e)
    case (Read c)
    then show ?thesis using assms by (cases e') (simp_all add: shape_def on_event_def)
  next
    case (Run t saved)
    then obtain t' saved' where e': "e' = Run t' saved'"
      using assms(1) by (cases e') (simp_all add: shape_def)
    show ?thesis
    proof (cases "queue g")
      case Nil
      then show ?thesis using assms Run e' by (simp add: on_event_def)
    next
      case (Cons u q)
      then show ?thesis
        using assms Run e' by (cases u) (simp_all add: on_event_def run_updater_summaries)
    qed
  qed
qed

lemma read_loop_independent:
  "map shape es = map shape es' \<Longrightarrow> locals g = locals g' \<Longrightarrow> queue g = queue g' \<Longrightarrow>
   generatedSummaries (home g) = generatedSummaries (home g') \<Longrightarrow>
     locals (read_loop key es g) = locals (read_loop key es' g')
     \<and> generatedSummaries (home (read_loop key es g))
         = generatedSummaries (home (read_loop key es' g'))"
proof (induction es arbitrary: es' g g')
  case Nil
  then show ?case by (simp add: read_loop_Nil)
next
  case (Cons e es)
  from Cons.prems(1) obtain e' es'' where
    r: "es' = e' # es''" "shape e = shape e'" "map shape es = map shape es''"
    by (cases es') auto
  show ?case
    unfolding r(1) read_loop_Cons
    by (rule Cons.IH [OF r(3)])
       (rule on_event_independent [OF r(2) Cons.prems(2,3,4)])+
qed

lemma returned_errors_done:
  "summaryErrors (home (returned d
       (Response True status errJson (Some \<lparr>events = es, ending = StreamDone\<rparr>))
       final_now stored h)) (id' d) = Some []"
  by (simp add: returned_streamed final_store_fields stream_ended_errors read_loop_errors
      begin_generation_home)

lemma fetchAIGeneratedDiff_errors_done:
  "summaryErrors (fetchAIGeneratedDiff d
       (Response True status errJson (Some \<lparr>events = es, ending = StreamDone\<rparr>))
       final_now stored later h) (id' d) = Some []"
  by (simp add: fetchAIGeneratedDiff_def Let_def settle_errors returned_errors_done)

section \<open>Writes for an id that is not cached: claim C8\<close>

text \<open>
  C8. An update for an id that is not in the table leaves the table as it is, and so
  does a whole generation for an item that is not cached, whatever the request comes
  back with and whenever the queued updaters run. The writes do not reach the
  extraction: the best values after the loop are those of the chunks alone, and two
  runs over the same chunks with the same schedule that start with the same values
  shown end with the same best values and the same values shown, whatever their tables
  and the outcomes of their writes are. No write sets an error for the item: the loop
  leaves the errors shown as they are, and a stream that ends normally ends with the
  empty error for the item. When every partial write resolves the loop writes nothing
  to the console.
\<close>

theorem update_of_missing_id_is_noop:
  "(key \<notin> id' ` set t \<longrightarrow> table_update key c t = t)
   \<and> (id' d \<notin> id' ` set (db_diffs h) \<longrightarrow>
        db_diffs (fetchAIGeneratedDiff d fetched final_now stored later h) = db_diffs h)
   \<and> locals (read_loop key es g) = fold (\<lambda>c x. extract_step x c) (chunks es) (locals g)
   \<and> (map shape es = map shape es' \<and> locals g = locals g' \<and> queue g = queue g'
        \<and> generatedSummaries (home g) = generatedSummaries (home g') \<longrightarrow>
        locals (read_loop key es g) = locals (read_loop key es' g')
        \<and> generatedSummaries (home (read_loop key es g))
            = generatedSummaries (home (read_loop key es' g')))
   \<and> summaryErrors (home (read_loop key es g)) = summaryErrors (home g)
   \<and> summaryErrors (fetchAIGeneratedDiff d
          (Response True status errJson (Some \<lparr>events = es, ending = StreamDone\<rparr>))
          final_now stored later h) (id' d) = Some []
   \<and> ((\<forall>e \<in> set es. saves e) \<longrightarrow>
        console (home (read_loop key es g)) = console (home g))"
proof (intro conjI impI)
  assume "key \<notin> id' ` set t"
  then show "table_update key c t = t" by (rule table_update_missing)
next
  assume "id' d \<notin> id' ` set (db_diffs h)"
  then show "db_diffs (fetchAIGeneratedDiff d fetched final_now stored later h) = db_diffs h"
    by (rule fetchAIGeneratedDiff_missing)
next
  show "locals (read_loop key es g) = fold (\<lambda>c x. extract_step x c) (chunks es) (locals g)"
    by (rule read_loop_locals)
next
  assume a: "map shape es = map shape es' \<and> locals g = locals g' \<and> queue g = queue g'
        \<and> generatedSummaries (home g) = generatedSummaries (home g')"
  then show "locals (read_loop key es g) = locals (read_loop key es' g')"
    using read_loop_independent [of es es' g g' key] by simp
  from a show "generatedSummaries (home (read_loop key es g))
            = generatedSummaries (home (read_loop key es' g'))"
    using read_loop_independent [of es es' g g' key] by simp
next
  show "summaryErrors (home (read_loop key es g)) = summaryErrors (home g)"
    by (rule read_loop_errors)
next
  show "summaryErrors (fetchAIGeneratedDiff d
          (Response True status errJson (Some \<lparr>events = es, ending = StreamDone\<rparr>))
          final_now stored later h) (id' d) = Some []"
    by (rule fetchAIGeneratedDiff_errors_done)
next
  assume "\<forall>e \<in> set es. saves e"
  then show "console (home (read_loop key es g)) = console (home g)"
    by (rule read_loop_console)
qed

theorem update_of_missing_id_is_noop_witness:
  "''7'' \<notin> id' ` set (db_diffs home_init)
   \<and> id' item7 \<notin> id' ` set (db_diffs home_init)
   \<and> map saves four_reads = [True, True, True, True, True, True, True, True, True]
   \<and> table_update ''7'' (summary_changes ''Fix bug'' [] 101) (db_diffs home_init) = db_diffs home_init
   \<and> db_diffs (fetchAIGeneratedDiff item7
         (Response True 200 None (Some \<lparr>events = four_reads, ending = StreamDone\<rparr>))
         104 Resolves (\<lambda>i. (105, Resolves)) home_init) = []
   \<and> summaryErrors (fetchAIGeneratedDiff item7
         (Response True 200 None (Some \<lparr>events = four_reads, ending = StreamDone\<rparr>))
         104 Resolves (\<lambda>i. (105, Resolves)) home_init) ''7'' = Some []
   \<and> console (home (read_loop ''7'' four_reads (begin_generation ''7'' home_init))) = []"
proof -
  have a: "''7'' \<notin> id' ` set (db_diffs home_init)" by (simp add: home_init_def)
  have b: "id' item7 \<notin> id' ` set (db_diffs home_init)" by (simp add: home_init_def)
  have c: "\<forall>e \<in> set four_reads. saves e" by (simp add: four_reads_def saves_def)
  have c': "map saves four_reads = [True, True, True, True, True, True, True, True, True]"
    by (simp add: four_reads_def saves_def)
  have e: "db_diffs home_init = []" "console (home (begin_generation ''7'' home_init)) = []"
    by (simp_all add: home_init_def begin_generation_def)
  have i: "id' item7 = ''7''" by (simp add: item7_def)
  show ?thesis
    using a b c c' e i update_of_missing_id_is_noop
      [where key = "''7''" and t = "db_diffs home_init"
         and c = "summary_changes ''Fix bug'' [] 101" and d = item7 and h = home_init
         and fetched = "Response True 200 None (Some \<lparr>events = four_reads, ending = StreamDone\<rparr>)"
         and final_now = 104 and stored = Resolves and later = "\<lambda>i. (105, Resolves)"
         and es = four_reads and es' = four_reads
         and g = "begin_generation ''7'' home_init" and g' = "begin_generation ''7'' home_init"
         and status = 200 and errJson = None]
    by simp
qed

lemma chunks_append:
  "chunks (es @ es') = chunks es @ chunks es'"
  by (induction es rule: chunks.induct) simp_all

lemma chunks_Nil_last:
  "chunks (es @ [e]) = [] \<Longrightarrow> chunks es = [] \<and> (\<exists>t saved. e = Run t saved)"
  by (cases e) (simp_all add: chunks_append)

text \<open>Without a chunk the queue holds the reset alone, until it runs.\<close>

lemma no_chunk_loop:
  assumes "chunks es = []"
  shows "locals (read_loop key es (begin_generation key h)) = extraction_init
       \<and> db_diffs (home (read_loop key es (begin_generation key h))) = db_diffs h
       \<and> console (home (read_loop key es (begin_generation key h))) = console h
       \<and> (queue (read_loop key es (begin_generation key h)) = [Reset]
          \<or> queue (read_loop key es (begin_generation key h)) = []
            \<and> generatedSummaries (home (read_loop key es (begin_generation key h))) key
                = Some \<lparr>developer = [], marketing = []\<rparr>)"
  using assms
proof (induction es rule: rev_induct)
  case Nil
  then show ?case
    by (simp add: read_loop_Nil begin_generation_locals begin_generation_home)
next
  case (snoc e es)
  from chunks_Nil_last [OF snoc.prems] obtain t saved where
    c: "chunks es = []" and e: "e = Run t saved" by blast
  let ?g = "read_loop key es (begin_generation key h)"
  note ih = snoc.IH [OF c]
  from ih consider (pending) "queue ?g = [Reset]"
    | (ran) "queue ?g = []"
        "generatedSummaries (home ?g) key = Some \<lparr>developer = [], marketing = []\<rparr>"
    by blast
  then show ?case
  proof cases
    case pending
    then have "on_event key ?g (Run t saved)
        = ?g\<lparr>queue := [], home := run_updater key (locals ?g) Reset t saved (home ?g)\<rparr>"
      by (simp add: on_event_def)
    then show ?thesis
      unfolding read_loop_snoc e using ih
      by (simp add: run_updater_db run_updater_summaries run_updater_def)
  next
    case ran
    then have "on_event key ?g (Run t saved) = ?g" by (simp add: on_event_def)
    then show ?thesis unfolding read_loop_snoc e using ih ran by simp
  qed
qed

lemma settle_reset:
  "generatedSummaries (settle key x later i [Reset] h) key = Some \<lparr>developer = [], marketing = []\<rparr>"
  "db_diffs (settle key x later i [Reset] h) = db_diffs h"
  "console (settle key x later i [Reset] h) = console h"
  by (simp_all add: run_updater_summaries run_updater_db run_updater_def)

lemma no_chunk_generation:
  fixes d status errJson es final_now stored later h
  defines "R \<equiv> fetchAIGeneratedDiff d
       (Response True status errJson (Some \<lparr>events = es, ending = StreamDone\<rparr>))
       final_now stored later h"
  assumes "chunks es = []"
  shows "generatedSummaries R (id' d) = Some \<lparr>developer = [], marketing = []\<rparr>"
    and "loadingSummaries R (id' d) = Some False"
    and "db_diffs R = db_diffs (final_store (id' d) extraction_init final_now stored (h\<lparr>console := []\<rparr>))"
    and "stored = Resolves \<Longrightarrow> console R = console h"
proof -
  let ?g = "read_loop (id' d) es (begin_generation (id' d) h)"
  note l = no_chunk_loop [OF assms(2), of "id' d" h]
  let ?h2 = "(final_store (id' d) (locals ?g) final_now stored
           (stream_ended (id' d) StreamDone (home ?g)))
        \<lparr>loadingSummaries := (loadingSummaries (home ?g))(id' d \<mapsto> False)\<rparr>"
  have R: "R = settle (id' d) (locals ?g) later 0 (queue ?g) ?h2"
    unfolding R_def fetchAIGeneratedDiff_def by (simp add: returned_streamed Let_def)
  have gs2: "generatedSummaries ?h2 = generatedSummaries (home ?g)"
    by (simp add: final_store_fields stream_ended_fields)
  have db2: "db_diffs ?h2
      = db_diffs (final_store (id' d) extraction_init final_now stored (h\<lparr>console := []\<rparr>))"
    using l by (cases stored) (simp_all add: final_store_db stream_ended_fields)
  have co2: "stored = Resolves \<Longrightarrow> console ?h2 = console h"
    using l by (simp add: final_store_fields stream_ended_errors)
  from l consider (pending) "queue ?g = [Reset]"
    | (ran) "queue ?g = []"
        "generatedSummaries (home ?g) (id' d) = Some \<lparr>developer = [], marketing = []\<rparr>"
    by blast
  then have "generatedSummaries R (id' d) = Some \<lparr>developer = [], marketing = []\<rparr>
      \<and> db_diffs R = db_diffs ?h2 \<and> console R = console ?h2"
  proof cases
    case pending
    then show ?thesis unfolding R by (simp only: settle_reset simp_thms)
  next
    case ran
    then show ?thesis unfolding R using gs2 by simp
  qed
  then show "generatedSummaries R (id' d) = Some \<lparr>developer = [], marketing = []\<rparr>"
    and "db_diffs R = db_diffs (final_store (id' d) extraction_init final_now stored (h\<lparr>console := []\<rparr>))"
    and "stored = Resolves \<Longrightarrow> console R = console h"
    using db2 co2 by simp_all
  show "loadingSummaries R (id' d) = Some False"
    unfolding R by (simp add: settle_errors)
qed

section \<open>A stream without chunks: claim C5\<close>

text \<open>
  C5. When the response is ok and its reader signals the end before it has delivered a
  chunk, the loop ends with both best values empty, the function returns with the empty
  error for the item (nothing was thrown), the values shown for the item are empty and
  the item is no longer loading. When the final write resolves it is an update of the id
  with both summaries empty and the time of the write, and nothing is written to the
  console; a record cached for the id then holds two empty summaries and the new
  \<^verbatim>\<open>summaryUpdatedAt\<close>. This holds whenever the reset runs.
\<close>

theorem empty_stream_stores_empty_notes:
  assumes "chunks es = []"
  shows "finalDeveloper (locals (read_loop (id' d) es (begin_generation (id' d) h))) = []
   \<and> finalMarketing (locals (read_loop (id' d) es (begin_generation (id' d) h))) = []
   \<and> summaryErrors (fetchAIGeneratedDiff d
         (Response True status errJson (Some \<lparr>events = es, ending = StreamDone\<rparr>))
         final_now stored later h) (id' d) = Some []
   \<and> generatedSummaries (fetchAIGeneratedDiff d
         (Response True status errJson (Some \<lparr>events = es, ending = StreamDone\<rparr>))
         final_now stored later h) (id' d) = Some \<lparr>developer = [], marketing = []\<rparr>
   \<and> loadingSummaries (fetchAIGeneratedDiff d
         (Response True status errJson (Some \<lparr>events = es, ending = StreamDone\<rparr>))
         final_now stored later h) (id' d) = Some False
   \<and> console (fetchAIGeneratedDiff d
         (Response True status errJson (Some \<lparr>events = es, ending = StreamDone\<rparr>))
         final_now Resolves later h) = console h
   \<and> db_diffs (fetchAIGeneratedDiff d
         (Response True status errJson (Some \<lparr>events = es, ending = StreamDone\<rparr>))
         final_now Resolves later h)
       = table_update (id' d) (summary_changes [] [] final_now) (db_diffs h)
   \<and> (table_get (id' d) (db_diffs h) = Some e \<longrightarrow>
        table_get (id' d) (db_diffs (fetchAIGeneratedDiff d
           (Response True status errJson (Some \<lparr>events = es, ending = StreamDone\<rparr>))
           final_now Resolves later h))
          = Some (e\<lparr>summaryDeveloper := Some [], summaryMarketing := Some [],
                    summaryUpdatedAt := Some final_now\<rparr>))"
proof -
  have x: "locals (read_loop (id' d) es (begin_generation (id' d) h)) = extraction_init"
    using no_chunk_loop [OF assms, of "id' d" h] by simp
  have db: "db_diffs (fetchAIGeneratedDiff d
         (Response True status errJson (Some \<lparr>events = es, ending = StreamDone\<rparr>))
         final_now Resolves later h)
       = table_update (id' d) (summary_changes [] [] final_now) (db_diffs h)"
    using no_chunk_generation(3) [OF assms, of d status errJson final_now Resolves later h]
    by (simp add: final_store_db extraction_init_def)
  have "table_get (id' d) (table_update (id' d) (summary_changes [] [] final_now) (db_diffs h))
      = Some (e\<lparr>summaryDeveloper := Some [], summaryMarketing := Some [],
                    summaryUpdatedAt := Some final_now\<rparr>)"
    if "table_get (id' d) (db_diffs h) = Some e"
    using that
    by (simp add: table_get_update summary_changes_def no_changes_def apply_changes_def)
  then show ?thesis
    unfolding db x
    using no_chunk_generation(1,2) [OF assms, of d status errJson final_now stored later h]
      no_chunk_generation(4) [OF assms refl, of d status errJson final_now later h]
    by (simp add: extraction_init_def fetchAIGeneratedDiff_errors_done)
qed

theorem empty_stream_stores_empty_notes_witness:
  "chunks [Run 99 Resolves] = []
   \<and> table_get (id' item7) (db_diffs home_cached) = Some entity7
   \<and> table_get (id' item7) (db_diffs (fetchAIGeneratedDiff item7
         (Response True 200 None (Some \<lparr>events = [Run 99 Resolves], ending = StreamDone\<rparr>))
         104 Resolves (\<lambda>i. (105, Resolves)) home_cached))
       = Some (entity7\<lparr>summaryDeveloper := Some [], summaryMarketing := Some [],
                      summaryUpdatedAt := Some 104\<rparr>)"
proof -
  have a: "chunks [Run 99 Resolves] = []" by simp
  have b: "table_get (id' item7) (db_diffs home_cached) = Some entity7"
    by (simp add: table_get_def home_cached_def home_init_def item7_def entity7_def)
  show ?thesis
    using a b empty_stream_stores_empty_notes
      [OF a, where d = item7 and h = home_cached and e = entity7 and status = 200
         and errJson = None and final_now = 104 and stored = Resolves
         and later = "\<lambda>i. (105, Resolves)"]
    by blast
qed




lemma on_event_run_partial:
  "queue g = Partial # q \<Longrightarrow>
     on_event key g (Run t saved)
       = g\<lparr>queue := q, home := run_updater key (locals g) Partial t saved (home g)\<rparr>"
  by (simp add: on_event_def)




lemma entity7_updated:
  "table_get ''7'' (table_update ''7'' (summary_changes a b n) [entity7])
     = Some (entity7\<lparr>summaryDeveloper := Some a, summaryMarketing := Some b,
                    summaryUpdatedAt := Some n\<rparr>)"
  "table_update ''7'' (summary_changes a b n) [entity7]
     = [entity7\<lparr>summaryDeveloper := Some a, summaryMarketing := Some b,
                 summaryUpdatedAt := Some n\<rparr>]"
  by (simp_all add: table_get_def table_update_def summary_changes_def no_changes_def
      apply_changes_def entity7_def)

section \<open>Regeneration resets the notes: claim C10\<close>




lemma fetchAIGeneratedDiff_streamed:
  "fetchAIGeneratedDiff d (Response True status errJson (Some bd)) final_now stored later h =
     settle (id' d) (locals (read_loop (id' d) (events bd) (begin_generation (id' d) h))) later 0
       (queue (read_loop (id' d) (events bd) (begin_generation (id' d) h)))
       ((final_store (id' d) (locals (read_loop (id' d) (events bd) (begin_generation (id' d) h)))
           final_now stored
           (stream_ended (id' d) (ending bd)
              (home (read_loop (id' d) (events bd) (begin_generation (id' d) h)))))
        \<lparr>loadingSummaries :=
           (loadingSummaries
              (home (read_loop (id' d) (events bd) (begin_generation (id' d) h))))
           (id' d \<mapsto> False)\<rparr>)"
  by (simp add: fetchAIGeneratedDiff_def returned_streamed Let_def)

lemma fetchAIGeneratedDiff_errors_thrown:
  "summaryErrors (fetchAIGeneratedDiff d
       (Response True status errJson (Some \<lparr>events = es, ending = ReadThrows m\<rparr>))
       final_now stored later h) (id' d) = Some (or_else m ''Error while reading AI stream.'')"
  by (simp add: fetchAIGeneratedDiff_streamed settle_errors final_store_fields stream_ended_errors)

section \<open>A reader that throws: claim C2\<close>

text \<open>
  C2 on the code. The cached item is regenerated, the reset runs, and the reader throws
  after the first chunk. In the first run the updater of the pass has run before the
  throw: the table at the abort holds the time 101 of its partial write, and the table
  the function leaves holds the time 200 of the final write, which is made after the
  abort. In the second run the updater of the pass has not run before the throw: the
  table at the abort is untouched, the final write is made after the abort, and the
  partial write of the pass is made after both, at time 201. The error of the reader is
  shown for the item.
\<close>

theorem cache_written_after_abort:
  "db_diffs (home (read_loop ''7'' [Run 99 Resolves, Read chunk_developer, Run 101 Resolves]
       (begin_generation ''7'' home_cached)))
     = [entity7\<lparr>summaryDeveloper := Some ''Fix bug'', summaryMarketing := Some [],
                 summaryUpdatedAt := Some 101\<rparr>]
   \<and> db_diffs (fetchAIGeneratedDiff item7
        (Response True 200 None
           (Some \<lparr>events = [Run 99 Resolves, Read chunk_developer, Run 101 Resolves],
                   ending = ReadThrows ''network error''\<rparr>))
        200 Resolves (\<lambda>i. (201 + int i, Resolves)) home_cached)
     = [entity7\<lparr>summaryDeveloper := Some ''Fix bug'', summaryMarketing := Some [],
                 summaryUpdatedAt := Some 200\<rparr>]
   \<and> db_diffs (home (read_loop ''7'' [Run 99 Resolves, Read chunk_developer]
        (begin_generation ''7'' home_cached)))
     = [entity7]
   \<and> db_diffs (home (returned item7
        (Response True 200 None
           (Some \<lparr>events = [Run 99 Resolves, Read chunk_developer],
                   ending = ReadThrows ''network error''\<rparr>))
        200 Resolves home_cached))
     = [entity7\<lparr>summaryDeveloper := Some ''Fix bug'', summaryMarketing := Some [],
                 summaryUpdatedAt := Some 200\<rparr>]
   \<and> db_diffs (fetchAIGeneratedDiff item7
        (Response True 200 None
           (Some \<lparr>events = [Run 99 Resolves, Read chunk_developer],
                   ending = ReadThrows ''network error''\<rparr>))
        200 Resolves (\<lambda>i. (201 + int i, Resolves)) home_cached)
     = [entity7\<lparr>summaryDeveloper := Some ''Fix bug'', summaryMarketing := Some [],
                 summaryUpdatedAt := Some 201\<rparr>]
   \<and> summaryErrors (fetchAIGeneratedDiff item7
        (Response True 200 None
           (Some \<lparr>events = [Run 99 Resolves, Read chunk_developer],
                   ending = ReadThrows ''network error''\<rparr>))
        200 Resolves (\<lambda>i. (201 + int i, Resolves)) home_cached) ''7'' = Some ''network error''"
proof -
  have i: "id' item7 = ''7''" by (simp add: item7_def)
  have db: "db_diffs home_cached = [entity7]" by (simp add: home_cached_def home_init_def)
  let ?g1 = "read_loop ''7'' [Run 99 Resolves, Read chunk_developer] (begin_generation ''7'' home_cached)"
  let ?gA = "read_loop ''7'' [Run 99 Resolves, Read chunk_developer, Run 101 Resolves]
       (begin_generation ''7'' home_cached)"
  have sA: "[Run 99 Resolves, Read chunk_developer, Run 101 Resolves]
      = [Run 99 Resolves, Read chunk_developer] @ [Run 101 Resolves]" by simp
  have q1: "queue ?g1 = [Partial]"
    by (simp add: read_loop_def on_event_def begin_generation_def)
  have x1: "locals ?g1
      = \<lparr>accumulated = chunk_developer, finalDeveloper = ''Fix bug'', finalMarketing = []\<rparr>"
    by (simp add: read_loop_locals begin_generation_locals extract_step_def extraction_init_def
        chunk_developer_def developer_re_def marketing_re_def dq_def Let_def)
  have db1: "db_diffs (home ?g1) = [entity7]"
    by (simp add: read_loop_def on_event_def begin_generation_def run_updater_def db)
  have gs1: "generatedSummaries (home ?g1) ''7'' = Some \<lparr>developer = [], marketing = []\<rparr>"
    by (simp add: read_loop_def on_event_def begin_generation_def run_updater_def)
  have t1: "tracked ''7'' ?g1" by (rule tracked_loop) (rule tracked_init)
  have b1: "behind ''7'' ?g1" using t1 q1 by (rule tracked_partial_first)
  have gA: "?gA = ?g1\<lparr>queue := [],
      home := run_updater ''7'' (locals ?g1) Partial 101 Resolves (home ?g1)\<rparr>"
    unfolding sA read_loop_snoc by (rule on_event_run_partial [OF q1])
  have xA: "locals ?gA
      = \<lparr>accumulated = chunk_developer, finalDeveloper = ''Fix bug'', finalMarketing = []\<rparr>"
    and qA: "queue ?gA = []"
    unfolding gA by (simp_all add: x1)
  have dbA: "db_diffs (home ?gA)
      = [entity7\<lparr>summaryDeveloper := Some ''Fix bug'', summaryMarketing := Some [],
                 summaryUpdatedAt := Some 101\<rparr>]"
    unfolding gA using run_partial_behind(2) [OF b1, of 101]
    by (simp add: x1 db1 entity7_updated(2))
  have A: "db_diffs (fetchAIGeneratedDiff item7
        (Response True 200 None
           (Some \<lparr>events = [Run 99 Resolves, Read chunk_developer, Run 101 Resolves],
                   ending = ReadThrows ''network error''\<rparr>))
        200 Resolves (\<lambda>i. (201 + int i, Resolves)) home_cached)
     = [entity7\<lparr>summaryDeveloper := Some ''Fix bug'', summaryMarketing := Some [],
                 summaryUpdatedAt := Some 200\<rparr>]"
    unfolding fetchAIGeneratedDiff_streamed i
    by (simp add: qA xA dbA final_store_db stream_ended_fields table_update_def
        summary_changes_def no_changes_def apply_changes_def entity7_def)
  have B1: "db_diffs (home (returned item7
        (Response True 200 None
           (Some \<lparr>events = [Run 99 Resolves, Read chunk_developer],
                   ending = ReadThrows ''network error''\<rparr>))
        200 Resolves home_cached))
     = [entity7\<lparr>summaryDeveloper := Some ''Fix bug'', summaryMarketing := Some [],
                 summaryUpdatedAt := Some 200\<rparr>]"
    unfolding returned_streamed i
    by (simp add: x1 db1 final_store_db stream_ended_fields entity7_updated(2))
  have B2: "db_diffs (fetchAIGeneratedDiff item7
        (Response True 200 None
           (Some \<lparr>events = [Run 99 Resolves, Read chunk_developer],
                   ending = ReadThrows ''network error''\<rparr>))
        200 Resolves (\<lambda>i. (201 + int i, Resolves)) home_cached)
     = [entity7\<lparr>summaryDeveloper := Some ''Fix bug'', summaryMarketing := Some [],
                 summaryUpdatedAt := Some 201\<rparr>]"
    unfolding fetchAIGeneratedDiff_streamed i
    by (simp add: q1 x1 db1 gs1 run_updater_db final_store_db
        final_store_fields stream_ended_fields or_else_def or_undefined_def table_update_def
        summary_changes_def no_changes_def apply_changes_def entity7_def)
  have E: "summaryErrors (fetchAIGeneratedDiff item7
        (Response True 200 None
           (Some \<lparr>events = [Run 99 Resolves, Read chunk_developer],
                   ending = ReadThrows ''network error''\<rparr>))
        200 Resolves (\<lambda>i. (201 + int i, Resolves)) home_cached) ''7'' = Some ''network error''"
    using fetchAIGeneratedDiff_errors_thrown
      [of item7 200 None "[Run 99 Resolves, Read chunk_developer]" "''network error''" 200
         Resolves "\<lambda>i. (201 + int i, Resolves)" home_cached]
    by (simp add: i or_else_def)
  from dbA A db1 B1 B2 E show ?thesis by simp
qed

lemma receive_reads:
  "shown (receive 1 prevDiffs data clock) = get_prop data ''diffs''"
  "page_now (receive page prevDiffs data clock) = get_prop data ''currentPage''"
  "page_next (receive page prevDiffs data clock) = get_prop data ''nextPage''"
  by (simp_all add: receive_def next_diffs_def)

lemma receive_only_reads:
  assumes "get_prop data ''diffs'' = get_prop data' ''diffs''"
    and "get_prop data ''currentPage'' = get_prop data' ''currentPage''"
    and "get_prop data ''nextPage'' = get_prop data' ''nextPage''"
  shows "receive page prevDiffs data clock = receive page prevDiffs data' clock"
  using assms by (simp add: receive_def next_diffs_def handed_to_bulkPut_def)

lemma get_prop_object:
  "get_prop (JObject fs) name = Inr (map_of (rev fs) name)"
  by (simp add: get_prop_def)

lemma handed_keeps_properties:
  assumes "get_prop data ''diffs'' = Inr (Some (JArray xs))"
  shows "\<exists>es. handed (receive page prevDiffs data clock) = Inr es \<and> length es = length xs
           \<and> (\<forall>i<length xs. \<forall>fs. xs ! i = JObject fs \<longrightarrow>
                 get_prop (es ! i) ''fetchedAt'' = Inr (Some (JNumber (clock i)))
                 \<and> (\<forall>name. name \<noteq> ''fetchedAt'' \<longrightarrow>
                       get_prop (es ! i) name = get_prop (xs ! i) name))"
proof -
  let ?es = "map (\<lambda>(i, d). JObject (own_props d @ [(''fetchedAt'', JNumber (clock i))]))
                 (enumerate 0 xs)"
  have h: "handed (receive page prevDiffs data clock) = Inr ?es"
    using assms by (simp add: receive_def handed_to_bulkPut_def)
  have n: "?es ! i = JObject (own_props (xs ! i) @ [(''fetchedAt'', JNumber (clock i))])"
    if "i < length xs" for i
    using that by (simp add: nth_enumerate_eq)
  have "get_prop (?es ! i) ''fetchedAt'' = Inr (Some (JNumber (clock i)))
      \<and> (\<forall>name. name \<noteq> ''fetchedAt'' \<longrightarrow> get_prop (?es ! i) name = get_prop (xs ! i) name)"
    if "i < length xs" "xs ! i = JObject fs" for i fs
    unfolding n [OF that(1)] that(2) by (simp add: get_prop_object own_props_def)
  then show ?thesis using h by auto
qed

lemma entry_of_only_reads:
  assumes "get_prop item ''id'' = get_prop item' ''id''"
    and "get_prop item ''url'' = get_prop item' ''url''"
    and "get_prop item ''description'' = get_prop item' ''description''"
  shows "entry_of item = entry_of item'"
  using assms by (simp add: entry_of_def)

lemma entry_of_object:
  "entry_of (JObject fs)
     = Inr \<lparr>label = map_of (rev fs) ''id'', href = map_of (rev fs) ''url'',
            caption = map_of (rev fs) ''description''\<rparr>"
  by (simp add: entry_of_def get_prop_object)

lemma POST_checks_accepts:
  "POST_checks True (Some (request_body item)) = Inr (d, f) \<longleftrightarrow>
     get_prop item ''description'' = Inr (Some d) \<and> truthy (Some d)
     \<and> get_prop item ''diff'' = Inr (Some f) \<and> truthy (Some f) \<and> truthy (Some item)"
  by (auto simp: POST_checks_def request_body_def get_prop_object
      split: sum.splits option.splits bool.splits if_splits)

lemma truthy_string:
  "truthy (Some (JString s)) \<longleftrightarrow> s \<noteq> []"
  by (simp add: truthy_def)

lemma POST_checks_typed:
  "POST_checks True (Some (request_body (json_of_item d)))
     = (if description d \<noteq> [] \<and> diff d \<noteq> []
        then Inr (JString (description d), JString (diff d))
        else Inl (400, ''diffItem with description and diff is required.''))"
  by (simp add: POST_checks_def request_body_def json_of_item_def get_prop_object truthy_def)


section \<open>The fields of the listing response: claim C9\<close>

text \<open>
  C9, as stated, fails. A response that carries its page under the names \<^verbatim>\<open>items\<close>,
  \<^verbatim>\<open>nextPageToken\<close>, \<^verbatim>\<open>currentPage\<close> and \<^verbatim>\<open>pageSize\<close> has no property \<^verbatim>\<open>diffs\<close>: the list
  shown becomes \<^verbatim>\<open>undefined\<close>, \<^verbatim>\<open>data.diffs.map\<close> throws, so nothing is handed to the
  table, and the next page is \<^verbatim>\<open>undefined\<close>. A record that carries \<^verbatim>\<open>diffText\<close> and
  \<^verbatim>\<open>sourceUrl\<close> has an entry without a link target, and the route refuses to generate
  notes for it.
\<close>

theorem spec_names_are_not_read:
  "shown (receive 1 None wire_page_spec_names (\<lambda>i. 70)) = Inr None
   \<and> handed (receive 1 None wire_page_spec_names (\<lambda>i. 70)) = Inl TypeError
   \<and> page_next (receive 1 None wire_page_spec_names (\<lambda>i. 70)) = Inr None
   \<and> entry_of wire_item_spec_names
       = Inr \<lparr>label = Some (JString ''7''), href = None,
              caption = Some (JString ''Fix crash on empty input'')\<rparr>
   \<and> POST_checks True (Some (request_body wire_item_spec_names))
       = Inl (400, ''diffItem with description and diff is required.'')"
proof -
  have p: "get_prop wire_page_spec_names ''diffs'' = Inr None"
    "get_prop wire_page_spec_names ''nextPage'' = Inr None"
    by (simp_all add: get_prop_def wire_page_spec_names_def)
  have i: "get_prop wire_item_spec_names ''id'' = Inr (Some (JString ''7''))"
    "get_prop wire_item_spec_names ''url'' = Inr None"
    "get_prop wire_item_spec_names ''description''
       = Inr (Some (JString ''Fix crash on empty input''))"
    "get_prop wire_item_spec_names ''diff'' = Inr None"
    by (simp_all add: get_prop_def wire_item_spec_names_def)
  have b: "get_prop (request_body wire_item_spec_names) ''diffItem''
      = Inr (Some wire_item_spec_names)"
    by (simp add: request_body_def get_prop_object)
  have t: "truthy (Some wire_item_spec_names)"
    by (simp add: truthy_def wire_item_spec_names_def)
  have "POST_checks True (Some (request_body wire_item_spec_names))
       = Inl (400, ''diffItem with description and diff is required.'')"
    by (simp add: POST_checks_def b i t)
  moreover have "entry_of wire_item_spec_names
       = Inr \<lparr>label = Some (JString ''7''), href = None,
              caption = Some (JString ''Fix crash on empty input'')\<rparr>"
    unfolding entry_of_def by (simp add: i)
  ultimately show ?thesis
    by (simp add: receive_def next_diffs_def handed_to_bulkPut_def p)
qed

text \<open>
  C9, amended. The page takes the records it shows and stores from the property
  \<^verbatim>\<open>diffs\<close> of the response and its paging state from \<^verbatim>\<open>currentPage\<close> and \<^verbatim>\<open>nextPage\<close>, and
  reads no other property of the response: two responses that agree in these three are
  received alike, so \<^verbatim>\<open>perPage\<close> is never read. A stored record keeps every property of
  the record received and gains \<^verbatim>\<open>fetchedAt\<close>. Of a record, the entry shown reads \<^verbatim>\<open>id\<close>,
  \<^verbatim>\<open>url\<close> and \<^verbatim>\<open>description\<close> and nothing else, and the route generates notes exactly when
  \<^verbatim>\<open>description\<close> and \<^verbatim>\<open>diff\<close> are there and truthy; for an item of the declared type that
  is when both strings are not empty.
\<close>

theorem listing_fields_the_page_reads:
  "shown (receive 1 prevDiffs data clock) = get_prop data ''diffs''
   \<and> page_now (receive page prevDiffs data clock) = get_prop data ''currentPage''
   \<and> page_next (receive page prevDiffs data clock) = get_prop data ''nextPage''
   \<and> (get_prop data ''diffs'' = get_prop data' ''diffs''
        \<and> get_prop data ''currentPage'' = get_prop data' ''currentPage''
        \<and> get_prop data ''nextPage'' = get_prop data' ''nextPage'' \<longrightarrow>
        receive page prevDiffs data clock = receive page prevDiffs data' clock)
   \<and> (get_prop data ''diffs'' = Inr (Some (JArray xs)) \<longrightarrow>
        (\<exists>es. handed (receive page prevDiffs data clock) = Inr es \<and> length es = length xs
           \<and> (\<forall>i<length xs. \<forall>fs. xs ! i = JObject fs \<longrightarrow>
                 get_prop (es ! i) ''fetchedAt'' = Inr (Some (JNumber (clock i)))
                 \<and> (\<forall>name. name \<noteq> ''fetchedAt'' \<longrightarrow>
                       get_prop (es ! i) name = get_prop (xs ! i) name))))
   \<and> (get_prop item ''id'' = get_prop item' ''id''
        \<and> get_prop item ''url'' = get_prop item' ''url''
        \<and> get_prop item ''description'' = get_prop item' ''description'' \<longrightarrow>
        entry_of item = entry_of item')
   \<and> entry_of (JObject fs)
       = Inr \<lparr>label = map_of (rev fs) ''id'', href = map_of (rev fs) ''url'',
              caption = map_of (rev fs) ''description''\<rparr>
   \<and> (POST_checks True (Some (request_body item)) = Inr (d, f) \<longleftrightarrow>
        get_prop item ''description'' = Inr (Some d) \<and> truthy (Some d)
        \<and> get_prop item ''diff'' = Inr (Some f) \<and> truthy (Some f) \<and> truthy (Some item))
   \<and> POST_checks True (Some (request_body (json_of_item t)))
       = (if description t \<noteq> [] \<and> diff t \<noteq> []
          then Inr (JString (description t), JString (diff t))
          else Inl (400, ''diffItem with description and diff is required.''))"
proof (intro conjI impI)
  assume "get_prop data ''diffs'' = get_prop data' ''diffs''
        \<and> get_prop data ''currentPage'' = get_prop data' ''currentPage''
        \<and> get_prop data ''nextPage'' = get_prop data' ''nextPage''"
  then show "receive page prevDiffs data clock = receive page prevDiffs data' clock"
    using receive_only_reads by blast
next
  assume "get_prop data ''diffs'' = Inr (Some (JArray xs))"
  then show "\<exists>es. handed (receive page prevDiffs data clock) = Inr es \<and> length es = length xs
           \<and> (\<forall>i<length xs. \<forall>fs. xs ! i = JObject fs \<longrightarrow>
                 get_prop (es ! i) ''fetchedAt'' = Inr (Some (JNumber (clock i)))
                 \<and> (\<forall>name. name \<noteq> ''fetchedAt'' \<longrightarrow>
                       get_prop (es ! i) name = get_prop (xs ! i) name))"
    by (rule handed_keeps_properties)
next
  assume "get_prop item ''id'' = get_prop item' ''id''
        \<and> get_prop item ''url'' = get_prop item' ''url''
        \<and> get_prop item ''description'' = get_prop item' ''description''"
  then show "entry_of item = entry_of item'"
    using entry_of_only_reads by blast
next
  show "POST_checks True (Some (request_body item)) = Inr (d, f) \<longleftrightarrow>
        get_prop item ''description'' = Inr (Some d) \<and> truthy (Some d)
        \<and> get_prop item ''diff'' = Inr (Some f) \<and> truthy (Some f) \<and> truthy (Some item)"
    by (rule POST_checks_accepts)
next
  show "POST_checks True (Some (request_body (json_of_item t)))
       = (if description t \<noteq> [] \<and> diff t \<noteq> []
          then Inr (JString (description t), JString (diff t))
          else Inl (400, ''diffItem with description and diff is required.''))"
    by (rule POST_checks_typed)
qed (simp_all only: receive_reads entry_of_object)

theorem listing_fields_the_page_reads_witness:
  "get_prop wire_page ''diffs'' = Inr (Some (JArray [wire_item]))
   \<and> shown (receive 1 None wire_page (\<lambda>i. 70)) = Inr (Some (JArray [wire_item]))
   \<and> page_now (receive 1 None wire_page (\<lambda>i. 70)) = Inr (Some (JNumber 1))
   \<and> page_next (receive 1 None wire_page (\<lambda>i. 70)) = Inr (Some JNull)
   \<and> handed (receive 1 None wire_page (\<lambda>i. 70))
       = Inr [JObject (own_props wire_item @ [(''fetchedAt'', JNumber 70)])]
   \<and> entry_of wire_item
       = Inr \<lparr>label = Some (JString ''7''), href = Some (JString ''https://example.org/pull/7''),
              caption = Some (JString ''Fix crash on empty input'')\<rparr>
   \<and> POST_checks True (Some (request_body wire_item))
       = Inr (JString ''Fix crash on empty input'', JString ''@@ -1 +1 @@'')
   \<and> json_of_item item7 = wire_item"
proof -
  have a: "get_prop wire_page ''diffs'' = Inr (Some (JArray [wire_item]))"
    "get_prop wire_page ''currentPage'' = Inr (Some (JNumber 1))"
    "get_prop wire_page ''nextPage'' = Inr (Some JNull)"
    by (simp_all add: get_prop_def wire_page_def)
  have b: "handed (receive 1 None wire_page (\<lambda>i. 70))
       = Inr [JObject (own_props wire_item @ [(''fetchedAt'', JNumber 70)])]"
    by (simp add: receive_def handed_to_bulkPut_def a)
  have c: "json_of_item item7 = wire_item"
    by (simp add: json_of_item_def item7_def wire_item_def)
  have d: "description item7 \<noteq> [] \<and> diff item7 \<noteq> []"
    "description item7 = ''Fix crash on empty input''" "diff item7 = ''@@ -1 +1 @@''"
    by (simp_all add: item7_def)
  have e: "entry_of wire_item
       = Inr \<lparr>label = Some (JString ''7''), href = Some (JString ''https://example.org/pull/7''),
              caption = Some (JString ''Fix crash on empty input'')\<rparr>"
    by (simp add: entry_of_def get_prop_def wire_item_def)
  note T = listing_fields_the_page_reads
      [where data = wire_page and data' = wire_page and prevDiffs = None and clock = "\<lambda>i. 70"
         and page = 1 and t = item7 and xs = "[wire_item]" and item = wire_item
         and item' = wire_item and fs = "[]" and d = JNull and f = JNull]
  have s: "shown (receive 1 None wire_page (\<lambda>i. 70)) = get_prop wire_page ''diffs''"
    "page_now (receive 1 None wire_page (\<lambda>i. 70)) = get_prop wire_page ''currentPage''"
    "page_next (receive 1 None wire_page (\<lambda>i. 70)) = get_prop wire_page ''nextPage''"
    using T by blast+
  have r: "POST_checks True (Some (request_body (json_of_item item7)))
       = (if description item7 \<noteq> [] \<and> diff item7 \<noteq> []
          then Inr (JString (description item7), JString (diff item7))
          else Inl (400, ''diffItem with description and diff is required.''))"
    using T by blast
  have "POST_checks True (Some (request_body wire_item))
       = Inr (JString ''Fix crash on empty input'', JString ''@@ -1 +1 @@'')"
    using r unfolding c by (simp add: d)
  then show ?thesis
    unfolding s using a b c e by simp
qed

end
